theory Spec2Isabelle
  imports Main
begin

section \<open>Strings\<close>

text \<open>
  A JavaScript string is modelled as a \<open>string\<close> (a list of \<open>char\<close>), one \<open>char\<close> per
  code unit, so that \<open>length\<close> is the source's \<open>.length\<close>; the model covers the strings
  whose code units are below 256.  There \<open>toLowerCase\<close> changes the capital letters
  \<open>A\<close> to \<open>Z\<close> and the capital letters of Latin-1 (codes 192 to 222, except the
  multiplication sign 215), each to the code 32 above it.
\<close>

definition toLowerCaseChar :: "char \<Rightarrow> char" where
  "toLowerCaseChar c =
     (let n = (of_char c :: nat)
      in if (65 \<le> n \<and> n \<le> 90) \<or> (192 \<le> n \<and> n \<le> 222 \<and> n \<noteq> 215)
         then char_of (n + 32) else c)"

definition toLowerCase :: "string \<Rightarrow> string" where
  "toLowerCase s = map toLowerCaseChar s"

fun startsWith :: "string \<Rightarrow> string \<Rightarrow> bool" where
  "startsWith s [] = True"
| "startsWith [] (q # qs) = False"
| "startsWith (c # s) (q # qs) = (c = q \<and> startsWith s qs)"

text \<open>\<open>s.includes(q)\<close>: \<open>q\<close> occurs in \<open>s\<close> as a contiguous run.\<close>

fun includesStr :: "string \<Rightarrow> string \<Rightarrow> bool" where
  "includesStr [] q = (q = [])"
| "includesStr (c # s) q = (startsWith (c # s) q \<or> includesStr s q)"

text \<open>\<open>xs.slice(0, n)\<close> is \<open>take n xs\<close>; \<open>xs.slice(-n)\<close> keeps the last \<open>n\<close> elements.\<close>

definition sliceLast :: "nat \<Rightarrow> 'a list \<Rightarrow> 'a list" where
  "sliceLast n xs = drop (length xs - n) xs"

text \<open>
  A JavaScript \<open>Set\<close> of strings iterates in insertion order; it is modelled as the list of
  its elements in that order.  \<open>setAdd\<close> is \<open>Set.prototype.add\<close>, \<open>newSet\<close> is
  \<open>new Set(array)\<close>.
\<close>

definition setAdd :: "'a list \<Rightarrow> 'a \<Rightarrow> 'a list" where
  "setAdd s x = (if x \<in> set s then s else s @ [x])"

definition newSet :: "'a list \<Rightarrow> 'a list" where
  "newSet xs = foldl setAdd [] xs"

section \<open>Regular expressions of the literal file-pattern pass\<close>

text \<open>
  The five patterns of \<open>_findMentionedFiles\<close> are sequences of two kinds of atoms: one
  character of a class, and a greedy \<open>+\<close> of a class.  \<open>exec re s\<close> is a backtracking match
  of \<open>re\<close> anchored at the start of \<open>s\<close>: it returns the input left after the match,
  preferring the longest repetition first, as the JavaScript engine does.
\<close>

datatype atom = One "char \<Rightarrow> bool" | Plus "char \<Rightarrow> bool"

fun exec :: "atom list \<Rightarrow> string \<Rightarrow> string option" where
  "exec [] s = Some s"
| "exec (One p # r) [] = None"
| "exec (One p # r) (c # s) = (if p c then exec r s else None)"
| "exec (Plus p # r) [] = None"
| "exec (Plus p # r) (c # s) =
     (if p c then (case exec (Plus p # r) s of Some t \<Rightarrow> Some t | None \<Rightarrow> exec r s)
      else None)"

text \<open>The character class of an atom.\<close>

fun atomClass :: "atom \<Rightarrow> char \<Rightarrow> bool" where
  "atomClass (One p) = p"
| "atomClass (Plus p) = p"

text \<open>
  \<open>matchAll re s\<close> lists the matched substrings that \<open>s.match(re)\<close> finds with the \<open>g\<close> flag:
  leftmost match first, the search resuming where the previous match ended (one position
  further after an empty match).
\<close>

function matchAll :: "atom list \<Rightarrow> string \<Rightarrow> string list" where
  "matchAll re [] = (case exec re [] of None \<Rightarrow> [] | Some t \<Rightarrow> [[]])"
| "matchAll re (c # s) =
     (case exec re (c # s) of
        None \<Rightarrow> matchAll re s
      | Some t \<Rightarrow>
          if length t < length (c # s)
          then take (length (c # s) - length t) (c # s) # matchAll re t
          else [] # matchAll re s)"
  by pat_completeness auto
termination
  by (relation "measure (\<lambda>(re, s). length s)") auto

text \<open>\<open>String.prototype.match\<close> returns \<open>null\<close> when nothing matches.\<close>

definition strMatch :: "string \<Rightarrow> atom list \<Rightarrow> string list option" where
  "strMatch s re = (let ms = matchAll re s in if ms = [] then None else Some ms)"

definition isWordChar :: "char \<Rightarrow> bool" where
  "isWordChar c =
     (let n = (of_char c :: nat) in
        (97 \<le> n \<and> n \<le> 122) \<or> (65 \<le> n \<and> n \<le> 90) \<or> (48 \<le> n \<and> n \<le> 57) \<or> n = 95)"

definition isDot :: "char \<Rightarrow> bool" where
  "isDot c = (c = CHR ''.'')"

definition isWordOrSlash :: "char \<Rightarrow> bool" where
  "isWordOrSlash c = (isWordChar c \<or> c = CHR ''/'')"

definition backtick :: char where "backtick = CHR 0x60"
definition dquote :: char where "dquote = CHR 0x22"
definition squote :: char where "squote = CHR 0x27"

definition quotedPattern :: "char \<Rightarrow> atom list" where
  "quotedPattern q =
     [One (\<lambda>c. c = q), Plus (\<lambda>c. c \<noteq> q), One isDot, Plus isWordChar, One (\<lambda>c. c = q)]"

definition filePatterns :: "atom list list" where
  "filePatterns =
     [ [Plus isWordChar, One isDot, Plus isWordChar],
       [Plus isWordOrSlash, One isDot, Plus isWordChar],
       quotedPattern backtick,
       quotedPattern dquote,
       quotedPattern squote ]"

text \<open>\<open>match.replace(/[`"']/g, '')\<close>\<close>

definition cleanMatch :: "string \<Rightarrow> string" where
  "cleanMatch m = filter (\<lambda>c. c \<noteq> backtick \<and> c \<noteq> dquote \<and> c \<noteq> squote) m"

section \<open>FileManager\<close>

text \<open>
  The file system and the \<open>path\<close> module are the environment of \<open>readFile\<close>.  They are a
  parameter of the model: \<open>readFileSync\<close> returns either the error it throws or the text.
\<close>

datatype fsError = ENOENT | EACCES | EISDIR

record fsys =
  isAbsolute :: "string \<Rightarrow> bool"
  pathJoin :: "string \<Rightarrow> string \<Rightarrow> string"
  existsSync :: "string \<Rightarrow> bool"
  readFileSync :: "string \<Rightarrow> fsError + string"

record ProjectFile =
  name :: string
  path :: string
  relativePath :: string
  extension :: string
  fsize :: nat

record FileManager =
  projectPath :: string
  projectFiles :: "ProjectFile list"

text \<open>
  \<open>readFile\<close>: \<open>None\<close> is the source's \<open>null\<close>.  The \<open>try\<close> block catches whatever
  \<open>readFileSync\<close> throws.
\<close>

definition readFile :: "fsys \<Rightarrow> FileManager \<Rightarrow> string \<Rightarrow> string option" where
  "readFile fs fm filePath =
     (let fullPath = (if isAbsolute fs filePath then filePath
                      else pathJoin fs (projectPath fm) filePath)
      in if \<not> existsSync fs filePath then None
         else (case readFileSync fs fullPath of
                 Inl error \<Rightarrow> None
               | Inr content \<Rightarrow> Some content))"

definition findFiles :: "FileManager \<Rightarrow> string \<Rightarrow> ProjectFile list" where
  "findFiles fm query =
     (let lowerQuery = toLowerCase query
      in filter (\<lambda>file. includesStr (toLowerCase (name file)) lowerQuery
                       \<or> includesStr (toLowerCase (relativePath file)) lowerQuery)
                (projectFiles fm))"

section \<open>ContextBuilder\<close>

record ConversationTurn =
  role :: string
  content :: string

record ContextBuilder =
  fileManager :: FileManager
  maxContextLength :: nat
  currentContext :: "string list"

definition newContextBuilder :: "FileManager \<Rightarrow> ContextBuilder" where
  "newContextBuilder fm =
     \<lparr>fileManager = fm, maxContextLength = 8000, currentContext = []\<rparr>"

definition keywordToFileType :: "(string \<times> string list) list" where
  "keywordToFileType =
     [ (''main'', [''main.js'', ''main.py'', ''index.js'', ''app.js'', ''main.cpp'']),
       (''config'', [''.config'', ''config.js'', ''config.json'', ''package.json'']),
       (''readme'', [''README.md'', ''readme.txt'']),
       (''test'', [''test'', ''spec'', ''__test__'']),
       (''component'', [''.jsx'', ''.tsx'', ''.vue'']),
       (''style'', [''.css'', ''.scss'', ''.sass'']),
       (''database'', [''db'', ''database'', ''.sql'']),
       (''api'', [''api'', ''routes'', ''endpoints'']),
       (''auth'', [''auth'', ''login'', ''authentication'']) ]"

text \<open>
  The files pushed for one pattern of the literal pass: every match is cleaned and looked
  up, and every file found is pushed.
\<close>

definition patternFiles :: "FileManager \<Rightarrow> string \<Rightarrow> atom list \<Rightarrow> string list" where
  "patternFiles fm message pattern =
     (case strMatch message pattern of
        None \<Rightarrow> []
      | Some matches \<Rightarrow>
          concat (map (\<lambda>m. map relativePath (findFiles fm (cleanMatch m))) matches))"

text \<open>
  The files pushed for one entry of the keyword table: for each of its patterns, the first
  three files found (\<open>matchingFiles.slice(0, 3)\<close>).
\<close>

definition keywordFiles :: "FileManager \<Rightarrow> string list \<Rightarrow> string list" where
  "keywordFiles fm patterns =
     concat (map (\<lambda>pattern. map relativePath (take 3 (findFiles fm pattern))) patterns)"

definition keywordPass :: "FileManager \<Rightarrow> string \<Rightarrow> string list" where
  "keywordPass fm lowerMessage =
     concat (map (\<lambda>(keyword, patterns).
                    if includesStr lowerMessage keyword then keywordFiles fm patterns else [])
                 keywordToFileType)"

definition findMentionedFiles :: "FileManager \<Rightarrow> string \<Rightarrow> string list" where
  "findMentionedFiles fm message =
     (let lowerMessage = toLowerCase message;
          mentionedFiles = concat (map (patternFiles fm message) filePatterns)
                           @ keywordPass fm lowerMessage
      in newSet mentionedFiles)"

definition findRecentlyMentionedFiles :: "FileManager \<Rightarrow> ConversationTurn list \<Rightarrow> string list" where
  "findRecentlyMentionedFiles fm conversationHistory =
     (let recentMessages = sliceLast 4 conversationHistory
      in foldl (\<lambda>recentFiles message.
                  if role message = ''user''
                  then foldl setAdd recentFiles (findMentionedFiles fm (content message))
                  else recentFiles)
               [] recentMessages)"

definition separator :: string where
  "separator = replicate 40 CHR ''=''"

definition buildFileContext :: "fsys \<Rightarrow> FileManager \<Rightarrow> string \<Rightarrow> string" where
  "buildFileContext fs fm filePath =
     (case readFile fs fm filePath of
        None \<Rightarrow> ''FILE: '' @ filePath @ ''\<newline>[Error: Could not read file]\<newline>\<newline>''
      | Some contents \<Rightarrow>
          if contents = [] then ''FILE: '' @ filePath @ ''\<newline>[Error: Could not read file]\<newline>\<newline>''
          else
            (let truncatedContent =
                   (if length contents > 2000
                    then take 2000 contents @ ''\<newline>... [File truncated]\<newline>''
                    else contents)
             in ''FILE: '' @ filePath @ ''\<newline>'' @ separator @ ''\<newline>''
                @ truncatedContent @ ''\<newline>'' @ separator @ ''\<newline>\<newline>''))"

definition contextHeader :: string where
  "contextHeader = ''=== PROJECT CONTEXT ===\<newline>''
                   @ ''Here are the relevant files from the user's project:\<newline>\<newline>''"

definition limitNotice :: string where
  "limitNotice = ''... (More files available but context limit reached)\<newline>\<newline>''"

definition contextFooter :: string where
  "contextFooter = ''=== END PROJECT CONTEXT ===\<newline>\<newline>''"

text \<open>
  The \<open>for\<close> loop of \<open>buildContext\<close> over the files still to visit, with its two
  variables \<open>context\<close> and \<open>currentLength\<close>; it returns \<open>context\<close> as the loop leaves it.
\<close>

fun packFiles :: "fsys \<Rightarrow> ContextBuilder \<Rightarrow> string \<Rightarrow> nat \<Rightarrow> string list \<Rightarrow> string" where
  "packFiles fs cb context currentLength [] = context"
| "packFiles fs cb context currentLength (filePath # rest) =
     (let fileContext = buildFileContext fs (fileManager cb) filePath
      in if currentLength + length fileContext > maxContextLength cb
         then context @ limitNotice
         else packFiles fs cb (context @ fileContext) (currentLength + length fileContext) rest)"

definition filesToInclude :: "ContextBuilder \<Rightarrow> string \<Rightarrow> ConversationTurn list \<Rightarrow> string list" where
  "filesToInclude cb userMessage conversationHistory =
     (let mentionedFiles = findMentionedFiles (fileManager cb) userMessage;
          recentlyMentioned = findRecentlyMentionedFiles (fileManager cb) conversationHistory
      in newSet (mentionedFiles @ recentlyMentioned))"

text \<open>\<open>buildContext\<close> returns the context string and the builder with its updated state.\<close>

definition buildContext ::
  "fsys \<Rightarrow> ContextBuilder \<Rightarrow> string \<Rightarrow> ConversationTurn list \<Rightarrow> string \<times> ContextBuilder" where
  "buildContext fs cb userMessage conversationHistory =
     (let files = filesToInclude cb userMessage conversationHistory;
          context = (if length files > 0
                     then packFiles fs cb contextHeader 0 files @ contextFooter
                     else [])
      in (context, cb\<lparr>currentContext := files\<rparr>))"

definition getCurrentContext :: "ContextBuilder \<Rightarrow> string list" where
  "getCurrentContext cb = currentContext cb"

section \<open>A concrete environment\<close>

text \<open>
  A flat POSIX-like file table for the concrete instances below: \<open>files\<close> maps absolute
  paths to their text, a relative path is resolved against the working directory \<open>cwd\<close>,
  a path is absolute when it begins with a slash, and \<open>pathJoin\<close> puts a slash between its
  arguments (the instances only join paths that need no normalisation).
\<close>

definition posixAbsolute :: "string \<Rightarrow> bool" where
  "posixAbsolute p = (case p of [] \<Rightarrow> False | c # _ \<Rightarrow> c = CHR ''/'')"

definition posixResolve :: "string \<Rightarrow> string \<Rightarrow> string" where
  "posixResolve cwd p = (if posixAbsolute p then p else cwd @ ''/'' @ p)"

definition posixFs :: "string \<Rightarrow> (string \<times> string) list \<Rightarrow> fsys" where
  "posixFs cwd files =
     \<lparr> isAbsolute = posixAbsolute,
       pathJoin = (\<lambda>a b. a @ ''/'' @ b),
       existsSync = (\<lambda>p. map_of files (posixResolve cwd p) \<noteq> None),
       readFileSync = (\<lambda>p. case map_of files (posixResolve cwd p) of
                               None \<Rightarrow> Inl ENOENT
                             | Some text \<Rightarrow> Inr text) \<rparr>"

text \<open>The index entry that \<open>scanProject\<close> records for a file directly under the root.\<close>

definition rootFile :: "string \<Rightarrow> string \<Rightarrow> string \<Rightarrow> nat \<Rightarrow> ProjectFile" where
  "rootFile root fileName ext n =
     \<lparr> name = fileName, path = root @ ''/'' @ fileName, relativePath = fileName,
       extension = ext, fsize = n \<rparr>"

text \<open>
  Four files directly under the root \<open>/p\<close>, each holding \<open>n\<close> characters, scanned and
  read from that same directory.
\<close>

definition fourFiles :: "nat \<Rightarrow> FileManager" where
  "fourFiles n =
     \<lparr> projectPath = ''/p'',
       projectFiles = [rootFile ''/p'' ''a.js'' ''.js'' n, rootFile ''/p'' ''b.js'' ''.js'' n,
                       rootFile ''/p'' ''c.js'' ''.js'' n, rootFile ''/p'' ''d.js'' ''.js'' n] \<rparr>"

definition fourFilesFs :: "nat \<Rightarrow> fsys" where
  "fourFilesFs n =
     posixFs ''/p''
       [(''/p/a.js'', replicate n CHR ''x''), (''/p/b.js'', replicate n CHR ''x''),
        (''/p/c.js'', replicate n CHR ''x''), (''/p/d.js'', replicate n CHR ''x'')]"

text \<open>
  Two files whose 43-character names make their placeholder blocks 80 characters long;
  neither can be read.  The builder's budget is set to 100.
\<close>

definition longName :: "char \<Rightarrow> string" where
  "longName c = replicate 40 c @ ''.js''"

definition twoMissing :: FileManager where
  "twoMissing =
     \<lparr> projectPath = ''/p'',
       projectFiles = [rootFile ''/p'' (longName CHR ''a'') ''.js'' 10,
                       rootFile ''/p'' (longName CHR ''b'') ''.js'' 10] \<rparr>"

definition smallBudget :: ContextBuilder where
  "smallBudget = (newContextBuilder twoMissing)\<lparr>maxContextLength := 100\<rparr>"

text \<open>A file of 5000 characters and a file of 500 characters.\<close>

definition twoSizes :: FileManager where
  "twoSizes =
     \<lparr> projectPath = ''/p'',
       projectFiles = [rootFile ''/p'' ''big.js'' ''.js'' 5000,
                       rootFile ''/p'' ''small.js'' ''.js'' 500] \<rparr>"

definition twoSizesFs :: fsys where
  "twoSizesFs =
     posixFs ''/p'' [(''/p/big.js'', replicate 5000 CHR ''x''),
                     (''/p/small.js'', replicate 500 CHR ''y'')]"

text \<open>An index that still lists \<open>gone.js\<close>, deleted since the scan, next to \<open>kept.js\<close>.\<close>

definition staleIndex :: FileManager where
  "staleIndex =
     \<lparr> projectPath = ''/p'',
       projectFiles = [rootFile ''/p'' ''gone.js'' ''.js'' 2,
                       rootFile ''/p'' ''kept.js'' ''.js'' 2] \<rparr>"

definition staleFs :: fsys where
  "staleFs = posixFs ''/p'' [(''/p/kept.js'', ''ok'')]"

text \<open>A project with four of the files that the keyword \<open>main\<close> stands for.\<close>

definition mainProject :: FileManager where
  "mainProject =
     \<lparr> projectPath = ''/p'',
       projectFiles = [rootFile ''/p'' ''main.js'' ''.js'' 1, rootFile ''/p'' ''main.py'' ''.py'' 1,
                       rootFile ''/p'' ''index.js'' ''.js'' 1, rootFile ''/p'' ''app.js'' ''.js'' 1] \<rparr>"

text \<open>
  A file manager for the project \<open>/proj\<close> in a process whose working directory is
  \<open>/home/u\<close>.
\<close>

definition projManager :: FileManager where
  "projManager =
     \<lparr> projectPath = ''/proj'',
       projectFiles = [rootFile ''/proj'' ''a.js'' ''.js'' 2] \<rparr>"

definition homeFs :: fsys where
  "homeFs = posixFs ''/home/u'' [(''/proj/a.js'', ''hi'')]"

text \<open>
  A project with one file in a subdirectory, and a message that names it between double
  quotes.
\<close>

definition libProject :: FileManager where
  "libProject =
     \<lparr> projectPath = ''/p'',
       projectFiles = [\<lparr> name = ''file-manager.js'', path = ''/p/lib/file-manager.js'',
                         relativePath = ''lib/file-manager.js'', extension = ''.js'',
                         fsize = 2 \<rparr>] \<rparr>"

definition libFs :: fsys where
  "libFs = posixFs ''/p'' [(''/p/lib/file-manager.js'', ''ok'')]"

definition openQuoted :: string where
  "openQuoted = ''open '' @ [dquote] @ ''file-manager.js'' @ [dquote]"

text \<open>A message for the four-file project that names \<open>d.js\<close> between double quotes.\<close>

definition quotedD :: string where
  "quotedD = ''a.js b.js c.js '' @ [dquote] @ ''d.js'' @ [dquote]"

text \<open>
  Five files under \<open>/p\<close>: three of 2001 characters, one of 1545 characters, and
  \<open>gone.js\<close>, which the index lists but which cannot be read.
\<close>

definition fiveFiles :: FileManager where
  "fiveFiles =
     \<lparr> projectPath = ''/p'',
       projectFiles = [rootFile ''/p'' ''a.js'' ''.js'' 2001, rootFile ''/p'' ''b.js'' ''.js'' 2001,
                       rootFile ''/p'' ''c.js'' ''.js'' 2001, rootFile ''/p'' ''e.js'' ''.js'' 1545,
                       rootFile ''/p'' ''gone.js'' ''.js'' 10] \<rparr>"

definition fiveFilesFs :: fsys where
  "fiveFilesFs =
     posixFs ''/p''
       [(''/p/a.js'', replicate 2001 CHR ''x''), (''/p/b.js'', replicate 2001 CHR ''x''),
        (''/p/c.js'', replicate 2001 CHR ''x''), (''/p/e.js'', replicate 1545 CHR ''x'')]"

text \<open>
  The directory of \<open>staleFs\<close> after \<open>kept.js\<close> was edited, and the same directory after
  an unrelated file was added.
\<close>

definition changedFs :: fsys where
  "changedFs = posixFs ''/p'' [(''/p/kept.js'', ''changed'')]"

definition staleFsExtra :: fsys where
  "staleFsExtra = posixFs ''/p'' [(''/p/kept.js'', ''ok''), (''/p/notes.txt'', ''new'')]"

text \<open>
  A project whose file names hold a quote and a hyphen before the dot, and three messages
  that name them between double quotes: \<open>open "it'.js"\<close>, \<open>"x.y"a-.js"\<close> and
  \<open>open "a-.js"\<close>.
\<close>

definition oddNames :: FileManager where
  "oddNames =
     \<lparr> projectPath = ''/p'',
       projectFiles = [rootFile ''/p'' ''it'.js'' ''.js'' 2,
                       rootFile ''/p'' ''a-.js'' ''.js'' 2] \<rparr>"

definition oddNamesFs :: fsys where
  "oddNamesFs = posixFs ''/p'' [(''/p/it'.js'', ''ok''), (''/p/a-.js'', ''ok'')]"

definition quoteInside :: string where
  "quoteInside = ''open '' @ [dquote] @ ''it'.js'' @ [dquote]"

definition quoteShared :: string where
  "quoteShared = [dquote] @ ''x.y'' @ [dquote] @ ''a-.js'' @ [dquote]"

definition openDash :: string where
  "openDash = ''open '' @ [dquote] @ ''a-.js'' @ [dquote]"

section \<open>The specification's wording\<close>

text \<open>
  ``Deduplicated, in order of first appearance'': keep the first occurrence of every
  element and drop the later ones.
\<close>

fun firstAppearance :: "'a list \<Rightarrow> 'a list" where
  "firstAppearance [] = []"
| "firstAppearance (x # xs) = x # firstAppearance (filter (\<lambda>y. y \<noteq> x) xs)"

section \<open>Insertion-ordered sets\<close>

lemma setAdd_mem: "x \<in> set s \<Longrightarrow> setAdd s x = s"
  by (simp add: setAdd_def)

lemma setAdd_new: "x \<notin> set s \<Longrightarrow> setAdd s x = s @ [x]"
  by (simp add: setAdd_def)

lemma foldl_setAdd:
  "foldl setAdd acc xs = acc @ firstAppearance (filter (\<lambda>x. x \<notin> set acc) xs)"
proof (induction xs arbitrary: acc)
  case Nil
  show ?case by simp
next
  case (Cons x xs)
  show ?case
  proof (cases "x \<in> set acc")
    case True
    then show ?thesis by (simp add: setAdd_mem Cons.IH)
  next
    case False
    have "filter (\<lambda>y. y \<notin> set (acc @ [x])) xs
            = filter (\<lambda>y. y \<noteq> x) (filter (\<lambda>y. y \<notin> set acc) xs)"
      by (induction xs) auto
    with False show ?thesis by (simp add: setAdd_new Cons.IH)
  qed
qed

lemma newSet_firstAppearance: "newSet xs = firstAppearance xs"
  by (simp add: newSet_def foldl_setAdd)

lemma set_firstAppearance: "set (firstAppearance xs) = set xs"
proof (induction xs rule: firstAppearance.induct)
  case 1
  show ?case by simp
next
  case (2 x xs)
  then show ?case by auto
qed

lemma distinct_firstAppearance: "distinct (firstAppearance xs)"
proof (induction xs rule: firstAppearance.induct)
  case 1
  show ?case by simp
next
  case (2 x xs)
  then show ?case by (simp add: set_firstAppearance)
qed

lemma recent_fold:
  "foldl (\<lambda>recentFiles message.
            if role message = ''user''
            then foldl setAdd recentFiles (findMentionedFiles fm (content message))
            else recentFiles) acc ts
   = foldl setAdd acc
       (concat (map (\<lambda>t. findMentionedFiles fm (content t))
                    (filter (\<lambda>t. role t = ''user'') ts)))"
  by (induction ts arbitrary: acc) simp_all

section \<open>What \<open>readFile\<close> and the keyword pass guarantee\<close>

text \<open>
  A text that \<open>readFile\<close> returns is the text of the path resolved against the project
  root, or of the absolute path given.
\<close>

lemma readFile_Some:
  "readFile fs fm filePath = Some text \<Longrightarrow>
   existsSync fs filePath
   \<and> readFileSync fs (if isAbsolute fs filePath then filePath
                          else pathJoin fs (projectPath fm) filePath) = Inr text"
  by (auto simp add: readFile_def Let_def split: if_splits sum.splits)

text \<open>An absolute path is tested and read as it is.\<close>

lemma readFile_absolute:
  "isAbsolute fs filePath \<Longrightarrow>
   readFile fs fm filePath =
     (if existsSync fs filePath
      then (case readFileSync fs filePath of Inl e \<Rightarrow> None | Inr text \<Rightarrow> Some text)
      else None)"
  by (simp add: readFile_def)

text \<open>The keyword pass takes at most three files for each pattern of a keyword.\<close>

lemma keywordFiles_length: "length (keywordFiles fm patterns) \<le> 3 * length patterns"
proof (induction patterns)
  case Nil
  show ?case by (simp add: keywordFiles_def)
next
  case (Cons p ps)
  then show ?case by (simp add: keywordFiles_def)
qed

section \<open>Substrings\<close>

lemma startsWith_append: "startsWith (q @ ys) q"
  by (induction q) simp_all

lemma includesStr_prefix: "includesStr (q @ ys) q"
proof (cases "q @ ys")
  case Nil
  then show ?thesis by simp
next
  case (Cons a list)
  have "startsWith (q @ ys) q" by (rule startsWith_append)
  then have "startsWith (a # list) q" unfolding Cons .
  then have "includesStr (a # list) q" by simp
  then show ?thesis unfolding Cons .
qed

lemma includesStr_append: "includesStr (xs @ q @ ys) q"
proof (induction xs)
  case Nil
  show ?case using includesStr_prefix by simp
next
  case (Cons x xs)
  then show ?case by simp
qed


section \<open>The literal file-pattern pass\<close>

lemma exec_nonempty_Nil: "re \<noteq> [] \<Longrightarrow> exec re [] = None"
  by (cases re; cases "hd re") auto

lemma exec_separator:
  "\<forall>a\<in>set re. \<not> atomClass a q \<Longrightarrow>
   exec re (x @ q # y) = map_option (\<lambda>r. r @ q # y) (exec re x)"
proof (induction re x rule: exec.induct)
  case (1 s)
  show ?case by simp
next
  case (2 p r)
  then show ?case by simp
next
  case (3 p r c s)
  then show ?case by simp
next
  case (4 p r)
  then show ?case by simp
next
  case (5 p r c s)
  show ?case
  proof (cases "p c")
    case True
    with 5 show ?thesis by (cases "exec (Plus p # r) s") simp_all
  next
    case False
    then show ?thesis by simp
  qed
qed

lemma exec_suffix: "exec re s = Some t \<Longrightarrow> \<exists>u. s = u @ t"
proof (induction re s rule: exec.induct)
  case (1 s)
  then show ?case by simp
next
  case (2 p r)
  then show ?case by simp
next
  case (3 p r c s)
  then show ?case by (auto split: if_splits intro: exI [of _ "c # _"])
next
  case (4 p r)
  then show ?case by simp
next
  case (5 p r c s)
  then show ?case
    by (auto split: if_splits option.splits)
qed

lemma matchAll_separator:
  assumes "re \<noteq> []" and "\<forall>a\<in>set re. \<not> atomClass a q"
  shows "matchAll re (x @ q # y) = matchAll re x @ matchAll re y"
  using assms
proof (induction re x rule: matchAll.induct)
  case (1 re)
  have "exec re (q # y) = None"
    using exec_separator [of re q "[]" y] exec_nonempty_Nil 1 by simp
  then show ?case
    using exec_nonempty_Nil [OF "1.prems"(1)] by simp
next
  case (2 re c s)
  have sep: "exec re (c # s @ q # y) = map_option (\<lambda>r. r @ q # y) (exec re (c # s))"
    using exec_separator [of re q "c # s" y] "2.prems" by simp
  show ?case
  proof (cases "exec re (c # s)")
    case None
    with 2 sep show ?thesis by simp
  next
    case (Some t)
    then obtain u where u: "c # s = u @ t" using exec_suffix by blast
    show ?thesis
    proof (cases "length t < length (c # s)")
      case True
      have "take (length (c # s @ q # y) - length (t @ q # y)) (c # s @ q # y)
              = take (length (c # s) - length t) (c # s)"
      proof -
        have full: "c # s @ q # y = u @ (t @ q # y)"
          using u by (metis append_Cons append_assoc)
        have n: "length (c # s @ q # y) - length (t @ q # y) = length u"
          unfolding full by simp
        have m: "length (c # s) - length t = length u"
          unfolding u by simp
        show ?thesis
          unfolding n m unfolding full u by simp
      qed
      with 2 sep Some True show ?thesis by simp
    next
      case False
      with 2 sep Some show ?thesis by simp
    qed
  qed
qed

lemma exec_consumed:
  "exec re s = Some t \<Longrightarrow> \<exists>u. s = u @ t \<and> (\<forall>c\<in>set u. \<exists>a\<in>set re. atomClass a c)"
proof (induction re s arbitrary: t rule: exec.induct)
  case (1 s)
  then show ?case by simp
next
  case (2 p r)
  then show ?case by simp
next
  case (3 p r c s)
  from "3.prems" have pc: "p c" and ex: "exec r s = Some t"
    by (auto split: if_splits)
  from "3.IH" [OF pc ex] obtain u where "s = u @ t" "\<forall>c\<in>set u. \<exists>a\<in>set r. atomClass a c"
    by blast
  with pc show ?case
    by (intro exI [of _ "c # u"]) auto
next
  case (4 p r)
  then show ?case by simp
next
  case (5 p r c s)
  from "5.prems" have pc: "p c" by (auto split: if_splits)
  show ?case
  proof (cases "exec (Plus p # r) s")
    case None
    with "5.prems" pc have ex: "exec r s = Some t" by simp
    from "5.IH"(2) [OF pc None ex] obtain u
      where "s = u @ t" "\<forall>c\<in>set u. \<exists>a\<in>set r. atomClass a c" by blast
    with pc show ?thesis
      by (intro exI [of _ "c # u"]) auto
  next
    case (Some t')
    with "5.prems" pc have "t' = t" by simp
    with "5.IH"(1) [OF pc] Some obtain u
      where "s = u @ t" "\<forall>c\<in>set u. \<exists>a\<in>set (Plus p # r). atomClass a c" by blast
    with pc show ?thesis
      by (intro exI [of _ "c # u"]) auto
  qed
qed

lemma matchAll_part:
  "m \<in> set (matchAll re s) \<Longrightarrow>
   (\<exists>u v. s = u @ m @ v) \<and> (\<forall>c\<in>set m. \<exists>a\<in>set re. atomClass a c)"
proof (induction re s rule: matchAll.induct)
  case (1 re)
  then show ?case by (auto split: option.splits)
next
  case (2 re c s)
  show ?case
  proof (cases "exec re (c # s)")
    case None
    with 2 have "(\<exists>u v. s = u @ m @ v) \<and> (\<forall>c\<in>set m. \<exists>a\<in>set re. atomClass a c)"
      by simp
    then show ?thesis by (metis append_Cons)
  next
    case (Some t)
    from exec_consumed [OF Some] obtain u
      where u: "c # s = u @ t" "\<forall>c\<in>set u. \<exists>a\<in>set re. atomClass a c" by blast
    have tk: "take (length (c # s) - length t) (c # s) = u"
      unfolding u by simp
    show ?thesis
    proof (cases "length t < length (c # s)")
      case True
      with "2.prems" Some tk have "m = u \<or> m \<in> set (matchAll re t)"
        by (simp del: take_Suc_Cons)
      then show ?thesis
      proof
        assume "m = u"
        with u show ?thesis by (metis append_Nil)
      next
        assume "m \<in> set (matchAll re t)"
        with "2.IH"(2) [OF Some True]
        obtain u' v' where "t = u' @ m @ v'" and cls: "\<forall>c\<in>set m. \<exists>a\<in>set re. atomClass a c"
          by blast
        then have "c # s = (u @ u') @ m @ v'" using u by simp
        with cls show ?thesis by blast
      qed
    next
      case False
      with "2.prems" Some have "m = [] \<or> m \<in> set (matchAll re s)" by simp
      then show ?thesis
      proof
        assume "m = []"
        then have "c # s = [] @ m @ (c # s)" by simp
        with \<open>m = []\<close> show ?thesis by (metis empty_iff list.set(1))
      next
        assume "m \<in> set (matchAll re s)"
        with "2.IH"(3) [OF Some False]
        have "(\<exists>u v. s = u @ m @ v) \<and> (\<forall>c\<in>set m. \<exists>a\<in>set re. atomClass a c)" by simp
        then show ?thesis by (metis append_Cons)
      qed
    qed
  qed
qed

lemma matchAll_empty:
  "matchAll re s = [] \<Longrightarrow> s = u @ v \<Longrightarrow> exec re v = None"
proof (induction re s arbitrary: u rule: matchAll.induct)
  case (1 re)
  then show ?case by (auto split: option.splits)
next
  case (2 re c s)
  from "2.prems"(1) have none: "exec re (c # s) = None"
    by (auto split: option.splits if_splits)
  with "2.prems"(1) have rest: "matchAll re s = []" by simp
  show ?case
  proof (cases u)
    case Nil
    with "2.prems"(2) none show ?thesis by simp
  next
    case (Cons d u')
    with "2.prems"(2) have "s = u' @ v" by simp
    from "2.IH"(1) [OF none rest this] show ?thesis .
  qed
qed

lemma exec_Plus_all:
  "w \<noteq> [] \<Longrightarrow> list_all p w \<Longrightarrow> exec [Plus p] w = Some []"
proof (induction w)
  case Nil
  then show ?case by simp
next
  case (Cons c w)
  then show ?case by (cases w) simp_all
qed

lemma exec_literal:
  assumes "stem \<noteq> []" "list_all p stem" "\<not> p CHR ''.''" "ext \<noteq> []" "list_all isWordChar ext"
  shows "exec [Plus p, One isDot, Plus isWordChar] (stem @ ''.'' @ ext) = Some []"
  using assms(1,2)
proof (induction stem)
  case Nil
  then show ?case by simp
next
  case (Cons c stem)
  show ?case
  proof (cases stem)
    case Nil
    with Cons.prems assms(3-5) show ?thesis
      by (simp add: isDot_def exec_Plus_all)
  next
    case (Cons d stem')
    with Cons.IH Cons.prems show ?thesis by simp
  qed
qed

lemma quote_not_word:
  "q = backtick \<or> q = dquote \<or> q = squote \<Longrightarrow>
   \<not> isWordChar q \<and> \<not> isWordOrSlash q \<and> \<not> isDot q"
  by (auto simp add: isWordChar_def isWordOrSlash_def isDot_def backtick_def dquote_def squote_def)

lemma dot_not_word: "\<not> isWordOrSlash CHR ''.''"
  by (simp add: isWordOrSlash_def isWordChar_def)

lemma word_not_quote:
  "isWordOrSlash c \<or> c = CHR ''.'' \<Longrightarrow> c \<noteq> backtick \<and> c \<noteq> dquote \<and> c \<noteq> squote"
  by (auto simp add: isWordChar_def isWordOrSlash_def backtick_def dquote_def squote_def)

lemma isWordChar_isWordOrSlash: "isWordChar c \<Longrightarrow> isWordOrSlash c"
  by (simp add: isWordOrSlash_def)


lemma cleanMatch_id:
  "\<forall>c\<in>set m. c \<noteq> backtick \<and> c \<noteq> dquote \<and> c \<noteq> squote \<Longrightarrow> cleanMatch m = m"
  unfolding cleanMatch_def by (simp only: filter_id_conv)

lemma findFiles_part:
  assumes "file \<in> set (projectFiles fm)"
    and "name file = u @ m @ v \<or> relativePath file = u @ m @ v"
  shows "file \<in> set (findFiles fm m)"
proof -
  have "includesStr (toLowerCase (u @ m @ v)) (toLowerCase m)"
    unfolding toLowerCase_def map_append by (rule includesStr_append)
  with assms show ?thesis
    by (auto simp add: findFiles_def Let_def)
qed

lemma literal_tail_mentioned:
  assumes q: "q = backtick \<or> q = dquote \<or> q = squote"
    and lit: "stem \<noteq> []" "list_all isWordOrSlash stem" "ext \<noteq> []" "list_all isWordChar ext"
    and idx: "file \<in> set (projectFiles fm)"
             "name file = front @ stem @ ''.'' @ ext \<or> relativePath file = front @ stem @ ''.'' @ ext"
  shows "relativePath file
           \<in> set (findMentionedFiles fm (before @ [q] @ (front @ stem @ ''.'' @ ext) @ [q] @ rest))"
proof -
  let ?re = "[Plus isWordOrSlash, One isDot, Plus isWordChar]"
  let ?lit = "front @ stem @ ''.'' @ ext"
  let ?msg = "before @ [q] @ ?lit @ [q] @ rest"
  have rej: "\<forall>a\<in>set ?re. \<not> atomClass a q"
    using quote_not_word [OF q] by simp
  have ne: "?re \<noteq> []" by simp
  have split: "matchAll ?re ?msg = matchAll ?re before @ matchAll ?re ?lit @ matchAll ?re rest"
    using matchAll_separator [OF ne rej, of before "?lit @ q # rest"]
          matchAll_separator [OF ne rej, of ?lit rest]
    by simp
  have "matchAll ?re ?lit \<noteq> []"
  proof
    assume "matchAll ?re ?lit = []"
    from matchAll_empty [OF this, of front "stem @ ''.'' @ ext"]
    have "exec ?re (stem @ ''.'' @ ext) = None" by simp
    with exec_literal [OF lit(1,2) dot_not_word lit(3,4)] show False by simp
  qed
  then obtain m where m: "m \<in> set (matchAll ?re ?lit)"
    by (cases "matchAll ?re ?lit") auto
  from matchAll_part [OF m] obtain u v
    where part: "?lit = u @ m @ v" and cls: "\<forall>c\<in>set m. \<exists>a\<in>set ?re. atomClass a c"
    by blast
  have "\<forall>c\<in>set m. isWordOrSlash c \<or> c = CHR ''.''"
    using cls isWordChar_isWordOrSlash by (auto simp add: isDot_def)
  then have clean: "cleanMatch m = m"
    using word_not_quote by (intro cleanMatch_id) blast
  have found: "file \<in> set (findFiles fm m)"
    using idx part by (intro findFiles_part [of "file" fm u m v]) auto
  have inmsg: "m \<in> set (matchAll ?re ?msg)"
    unfolding split using m by simp
  then have sm: "strMatch ?msg ?re = Some (matchAll ?re ?msg)"
    by (auto simp add: strMatch_def Let_def)
  have "relativePath file \<in> set (patternFiles fm ?msg ?re)"
    unfolding patternFiles_def sm using inmsg found clean
    by (simp del: append_assoc) (metis imageI)
  moreover have "?re \<in> set filePatterns"
    by (simp add: filePatterns_def)
  ultimately have "relativePath file \<in> set (concat (map (patternFiles fm ?msg) filePatterns))"
    by (simp del: append_assoc) blast
  then show ?thesis
    unfolding findMentionedFiles_def Let_def newSet_firstAppearance set_firstAppearance
    by simp
qed

lemma exec_One:
  "exec (One p # r) s = Some t \<Longrightarrow> \<exists>c s'. s = c # s' \<and> p c \<and> exec r s' = Some t"
  by (cases s) (auto split: if_splits)

lemma exec_Plus:
  "exec (Plus p # r) s = Some t \<Longrightarrow>
   \<exists>m s'. s = m @ s' \<and> m \<noteq> [] \<and> list_all p m \<and> exec r s' = Some t"
proof (induction s)
  case Nil
  then show ?case by simp
next
  case (Cons c s)
  from Cons.prems have pc: "p c" by (auto split: if_splits)
  show ?case
  proof (cases "exec (Plus p # r) s")
    case None
    with Cons.prems pc have "exec r s = Some t" by simp
    with pc show ?thesis
      by (intro exI [of _ "[c]"] exI [of _ s]) simp
  next
    case (Some t')
    with Cons.prems pc have "exec (Plus p # r) s = Some t" by simp
    from Cons.IH [OF this] obtain m s'
      where "s = m @ s'" "m \<noteq> []" "list_all p m" "exec r s' = Some t" by blast
    with pc show ?thesis
      by (intro exI [of _ "c # m"] exI [of _ s']) simp
  qed
qed

lemma exec_Plus_complete:
  "m \<noteq> [] \<Longrightarrow> list_all p m \<Longrightarrow> exec r s' \<noteq> None \<Longrightarrow> exec (Plus p # r) (m @ s') \<noteq> None"
proof (induction m)
  case Nil
  then show ?case by simp
next
  case (Cons c m)
  show ?case
  proof (cases m)
    case Nil
    with Cons.prems show ?thesis by (auto split: option.splits)
  next
    case (Cons d m')
    with Cons.IH Cons.prems have "exec (Plus p # r) (m @ s') \<noteq> None" by simp
    with Cons.prems show ?thesis by (auto split: option.splits)
  qed
qed

lemma exec_quotedPattern:
  assumes "exec (quotedPattern q) s = Some t"
  shows "\<exists>m e. s = q # m @ ''.'' @ e @ q # t \<and> m \<noteq> [] \<and> q \<notin> set m
               \<and> e \<noteq> [] \<and> list_all isWordChar e"
proof -
  from exec_One [OF assms [unfolded quotedPattern_def]] obtain s1
    where s: "s = q # s1"
      and e1: "exec [Plus (\<lambda>c. c \<noteq> q), One isDot, Plus isWordChar, One (\<lambda>c. c = q)] s1 = Some t"
    by auto
  from exec_Plus [OF e1] obtain m s2
    where s1: "s1 = m @ s2" and m: "m \<noteq> []" "list_all (\<lambda>c. c \<noteq> q) m"
      and e2: "exec [One isDot, Plus isWordChar, One (\<lambda>c. c = q)] s2 = Some t"
    by blast
  from exec_One [OF e2] obtain s3
    where s2: "s2 = CHR ''.'' # s3"
      and e3: "exec [Plus isWordChar, One (\<lambda>c. c = q)] s3 = Some t"
    by (auto simp add: isDot_def)
  from exec_Plus [OF e3] obtain e s4
    where s3: "s3 = e @ s4" and e: "e \<noteq> []" "list_all isWordChar e"
      and e4: "exec [One (\<lambda>c. c = q)] s4 = Some t"
    by blast
  from exec_One [OF e4] have s4: "s4 = q # t" by auto
  have "q \<notin> set m" using m(2) by (auto simp add: list_all_iff)
  with s s1 s2 s3 s4 m(1) e show ?thesis by auto
qed

lemma exec_quotedPattern_complete:
  assumes "stem \<noteq> []" "q \<notin> set stem" "ext \<noteq> []" "list_all isWordChar ext"
  shows "exec (quotedPattern q) (q # stem @ ''.'' @ ext @ q # rest) \<noteq> None"
proof -
  have "exec [One (\<lambda>c. c = q)] (q # rest) \<noteq> None" by simp
  from exec_Plus_complete [OF assms(3,4) this]
  have "exec [One isDot, Plus isWordChar, One (\<lambda>c. c = q)] (''.'' @ ext @ q # rest) \<noteq> None"
    by (simp add: isDot_def)
  moreover have "list_all (\<lambda>c. c \<noteq> q) stem"
    using assms(2) by (auto simp add: list_all_iff)
  ultimately have "exec [Plus (\<lambda>c. c \<noteq> q), One isDot, Plus isWordChar, One (\<lambda>c. c = q)]
                     (stem @ ''.'' @ ext @ q # rest) \<noteq> None"
    using assms(1) by (intro exec_Plus_complete)
  then show ?thesis by (simp add: quotedPattern_def)
qed

lemma first_quote:
  "q \<notin> set M \<Longrightarrow> b @ q # Y = M @ q # t \<Longrightarrow>
   (b = M \<and> t = Y) \<or> (\<exists>tb. b = M @ q # tb \<and> t = tb @ q # Y)"
proof (induction M arbitrary: b)
  case Nil
  then show ?case by (cases b) auto
next
  case (Cons x M)
  then show ?case by (cases b) auto
qed

lemma matchAll_first:
  "u \<noteq> [] \<Longrightarrow> exec re (u @ t) = Some t \<Longrightarrow> matchAll re (u @ t) = u # matchAll re t"
  by (cases u) simp_all

lemma quoted_scan:
  assumes q: "q = backtick \<or> q = dquote \<or> q = squote"
    and lit: "stem \<noteq> []" "q \<notin> set stem" "ext \<noteq> []" "list_all isWordChar ext"
  shows "before = [] \<or> \<not> isWordChar (last before) \<Longrightarrow>
         q # stem @ ''.'' @ ext @ [q]
           \<in> set (matchAll (quotedPattern q) (before @ q # stem @ ''.'' @ ext @ q # rest))"
proof (induction "length before" arbitrary: before rule: less_induct)
  case less
  let ?re = "quotedPattern q"
  let ?lit = "stem @ ''.'' @ ext"
  let ?Y = "?lit @ q # rest"
  have qw: "\<not> isWordChar q" and qd: "q \<noteq> CHR ''.''"
    using quote_not_word [OF q] by (simp_all add: isDot_def)
  have qe: "q \<notin> set e" if "list_all isWordChar e" for e
    using that qw by (auto simp add: list_all_iff)
  have qlit: "q \<notin> set ?lit"
    using lit(2) qd qe [OF lit(4)] by simp
  show ?case
  proof (cases before)
    case Nil
    from exec_quotedPattern_complete [OF lit, of rest]
    obtain t where t: "exec ?re (q # ?Y) = Some t" by auto
    from exec_quotedPattern [OF t] obtain m e
      where shape: "q # ?Y = q # m @ ''.'' @ e @ q # t" and m: "q \<notin> set m"
        and e: "list_all isWordChar e" by blast
    have "q \<notin> set (m @ ''.'' @ e)" using m qd qe [OF e] by simp
    moreover from shape have "?lit @ q # rest = (m @ ''.'' @ e) @ q # t" by simp
    ultimately consider "t = rest" | tb where "?lit = (m @ ''.'' @ e) @ q # tb"
      using first_quote [of q "m @ ''.'' @ e" ?lit rest t] by blast
    then have "t = rest"
    proof cases
      case 1
      then show ?thesis .
    next
      case 2
      then have "q \<in> set ?lit" by (metis in_set_conv_decomp)
      with qlit show ?thesis by simp
    qed
    with t have "exec ?re ((q # ?lit @ [q]) @ rest) = Some rest" by simp
    then have "matchAll ?re ((q # ?lit @ [q]) @ rest) = (q # ?lit @ [q]) # matchAll ?re rest"
      by (intro matchAll_first) simp_all
    then have "matchAll ?re (q # ?Y) = (q # ?lit @ [q]) # matchAll ?re rest"
      by simp
    with Nil show ?thesis by simp
  next
    case (Cons c b)
    have lastb: "b = [] \<or> \<not> isWordChar (last b)"
      using less.prems Cons by (cases b) auto
    show ?thesis
    proof (cases "exec ?re (c # b @ q # ?Y)")
      case None
      have "q # ?lit @ [q] \<in> set (matchAll ?re (b @ q # ?Y))"
        using less.hyps [of b] lastb Cons by simp
      with None Cons show ?thesis by simp
    next
      case (Some t)
      from exec_quotedPattern [OF Some] obtain m e
        where shape: "c # b @ q # ?Y = q # m @ ''.'' @ e @ q # t" and m: "q \<notin> set m"
          and e: "e \<noteq> []" "list_all isWordChar e" by blast
      have nq: "q \<notin> set (m @ ''.'' @ e)" using m qd qe [OF e(2)] by simp
      from shape have eq: "b @ q # ?Y = (m @ ''.'' @ e) @ q # t" by simp
      from first_quote [OF nq eq]
      consider "b = m @ ''.'' @ e" | tb where "b = (m @ ''.'' @ e) @ q # tb" "t = tb @ q # ?Y"
        by blast
      then show ?thesis
      proof cases
        case 1
        with e have "b \<noteq> []" "isWordChar (last b)"
          by (simp_all add: list_all_iff)
        with lastb show ?thesis by simp
      next
        case 2
        have shorter: "length tb < length before" using 2 Cons by simp
        have "tb = [] \<or> \<not> isWordChar (last tb)"
          using lastb 2(1) by (cases tb) auto
        from less.hyps [OF shorter this]
        have "q # ?lit @ [q] \<in> set (matchAll ?re t)" using 2(2) by simp
        moreover have "length t < length (c # b @ q # ?Y)"
          using shape by simp
        ultimately show ?thesis using Some Cons by simp
      qed
    qed
  qed
qed

lemma cleanMatch_quoted:
  assumes "q = backtick \<or> q = dquote \<or> q = squote"
    and "list_all (\<lambda>c. c \<noteq> backtick \<and> c \<noteq> dquote \<and> c \<noteq> squote) stem"
    and "list_all isWordChar ext"
  shows "cleanMatch (q # stem @ ''.'' @ ext @ [q]) = stem @ ''.'' @ ext"
proof -
  have "\<forall>c\<in>set ext. c \<noteq> backtick \<and> c \<noteq> dquote \<and> c \<noteq> squote"
    using assms(3) word_not_quote isWordChar_isWordOrSlash by (auto simp add: list_all_iff)
  then have e: "filter (\<lambda>c. c \<noteq> backtick \<and> c \<noteq> dquote \<and> c \<noteq> squote) ext = ext"
    by (simp only: filter_id_conv)
  have s: "filter (\<lambda>c. c \<noteq> backtick \<and> c \<noteq> dquote \<and> c \<noteq> squote) stem = stem"
    using assms(2) by (simp only: filter_id_conv list_all_iff)
  have d: "CHR ''.'' \<noteq> backtick \<and> CHR ''.'' \<noteq> dquote \<and> CHR ''.'' \<noteq> squote"
    by (simp add: backtick_def dquote_def squote_def)
  show ?thesis
    using assms(1) d by (auto simp add: cleanMatch_def e s)
qed

lemma findFiles_whole:
  assumes "file \<in> set (projectFiles fm)" "name file = lit \<or> relativePath file = lit"
  shows "file \<in> set (findFiles fm lit)"
  using findFiles_part [of "file" fm "[]" lit "[]"] assms by simp

lemma literal_quoted_mentioned:
  assumes q: "q = backtick \<or> q = dquote \<or> q = squote"
    and lit: "stem \<noteq> []"
             "list_all (\<lambda>c. c \<noteq> backtick \<and> c \<noteq> dquote \<and> c \<noteq> squote) stem"
             "ext \<noteq> []" "list_all isWordChar ext"
    and open_quote: "before = [] \<or> \<not> isWordChar (last before)"
    and idx: "file \<in> set (projectFiles fm)"
             "name file = stem @ ''.'' @ ext \<or> relativePath file = stem @ ''.'' @ ext"
  shows "relativePath file
           \<in> set (findMentionedFiles fm (before @ [q] @ (stem @ ''.'' @ ext) @ [q] @ rest))"
proof -
  let ?re = "quotedPattern q"
  let ?lit = "stem @ ''.'' @ ext"
  let ?m = "q # ?lit @ [q]"
  let ?msg = "before @ [q] @ ?lit @ [q] @ rest"
  have "q \<notin> set stem"
    using q lit(2) by (auto simp add: list_all_iff)
  from quoted_scan [OF q lit(1) this lit(3,4) open_quote, of rest]
  have inmsg: "?m \<in> set (matchAll ?re ?msg)" by simp
  then have sm: "strMatch ?msg ?re = Some (matchAll ?re ?msg)"
    by (auto simp add: strMatch_def Let_def)
  have clean: "cleanMatch ?m = ?lit"
    using cleanMatch_quoted [OF q lit(2,4)] by simp
  have found: "file \<in> set (findFiles fm (cleanMatch ?m))"
    unfolding clean by (rule findFiles_whole [OF idx])
  have "relativePath file \<in> set (patternFiles fm ?msg ?re)"
    unfolding patternFiles_def sm using inmsg found
    by (simp del: append_assoc append.simps) (metis imageI)
  moreover have "?re \<in> set filePatterns"
    using q by (auto simp add: filePatterns_def)
  ultimately have "relativePath file \<in> set (concat (map (patternFiles fm ?msg) filePatterns))"
    by (simp del: append_assoc) blast
  then show ?thesis
    unfolding findMentionedFiles_def Let_def newSet_firstAppearance set_firstAppearance
    by simp
qed

section \<open>The packing loop\<close>

lemma packFiles_context:
  "packFiles fs cb ctx currentLength files = ctx @ packFiles fs cb [] currentLength files"
proof (induction files arbitrary: ctx currentLength)
  case Nil
  show ?case by simp
next
  case (Cons p rest)
  show ?case
    using Cons.IH [of "ctx @ buildFileContext fs (fileManager cb) p"]
          Cons.IH [of "buildFileContext fs (fileManager cb) p"]
    by (simp add: Let_def)
qed

lemma packFiles_length:
  "currentLength \<le> maxContextLength cb \<Longrightarrow>
   currentLength + length (packFiles fs cb [] currentLength files)
     \<le> maxContextLength cb + length limitNotice"
proof (induction files arbitrary: currentLength)
  case Nil
  then show ?case by simp
next
  case (Cons p rest)
  let ?b = "buildFileContext fs (fileManager cb) p"
  show ?case
  proof (cases "currentLength + length ?b > maxContextLength cb")
    case True
    with Cons.prems show ?thesis by (simp add: Let_def)
  next
    case False
    then have le: "currentLength + length ?b \<le> maxContextLength cb" by simp
    have "packFiles fs cb [] currentLength (p # rest)
            = ?b @ packFiles fs cb [] (currentLength + length ?b) rest"
      using False packFiles_context [of fs cb ?b] by (simp add: Let_def)
    with Cons.IH [OF le] show ?thesis by simp
  qed
qed

lemma packFiles_prefix:
  "currentLength \<le> maxContextLength cb \<Longrightarrow>
   \<exists>k\<le>length files.
      packFiles fs cb [] currentLength files
        = concat (map (buildFileContext fs (fileManager cb)) (take k files))
          @ (if k < length files then limitNotice else [])
    \<and> currentLength + sum_list (map (\<lambda>p. length (buildFileContext fs (fileManager cb) p)) (take k files))
          \<le> maxContextLength cb
    \<and> (k < length files \<longrightarrow>
          currentLength + sum_list (map (\<lambda>p. length (buildFileContext fs (fileManager cb) p)) (take (Suc k) files))
            > maxContextLength cb)"
proof (induction files arbitrary: currentLength)
  case Nil
  then show ?case by simp
next
  case (Cons p rest)
  let ?B = "buildFileContext fs (fileManager cb)"
  show ?case
  proof (cases "currentLength + length (?B p) > maxContextLength cb")
    case True
    with Cons.prems show ?thesis
      by (intro exI [of _ 0]) (simp add: Let_def)
  next
    case False
    then have le: "currentLength + length (?B p) \<le> maxContextLength cb" by simp
    from Cons.IH [OF le] obtain k where k: "k \<le> length rest"
      and out: "packFiles fs cb [] (currentLength + length (?B p)) rest
                  = concat (map ?B (take k rest)) @ (if k < length rest then limitNotice else [])"
      and fit: "currentLength + length (?B p) + sum_list (map (\<lambda>p. length (?B p)) (take k rest))
                  \<le> maxContextLength cb"
      and over: "k < length rest \<longrightarrow>
                  currentLength + length (?B p) + sum_list (map (\<lambda>p. length (?B p)) (take (Suc k) rest))
                    > maxContextLength cb"
      by blast
    have step: "packFiles fs cb [] currentLength (p # rest)
                  = ?B p @ packFiles fs cb [] (currentLength + length (?B p)) rest"
      using False packFiles_context [of fs cb "?B p"] by (simp add: Let_def)
    show ?thesis
      using k out fit over step
      by (intro exI [of _ "Suc k"]) (simp add: add.assoc)
  qed
qed


lemma buildFileContext_label_line:
  "\<exists>body. buildFileContext fs fm filePath = ''FILE: '' @ filePath @ ''\<newline>'' @ body"
  by (simp add: buildFileContext_def Let_def split: option.splits)

lemma packFiles_fitting:
  "currentLength
     + sum_list (map (\<lambda>x. length (buildFileContext fs (fileManager cb) x)) pre)
     \<le> maxContextLength cb \<Longrightarrow>
   packFiles fs cb [] currentLength (pre @ rest)
     = concat (map (buildFileContext fs (fileManager cb)) pre)
       @ packFiles fs cb [] 
           (currentLength + sum_list (map (\<lambda>x. length (buildFileContext fs (fileManager cb) x)) pre))
           rest"
proof (induction pre arbitrary: currentLength)
  case Nil
  show ?case by simp
next
  case (Cons x pre)
  let ?B = "buildFileContext fs (fileManager cb)"
  from Cons.prems have fit: "currentLength + length (?B x)
                               + sum_list (map (\<lambda>x. length (?B x)) pre) \<le> maxContextLength cb"
    by simp
  have "packFiles fs cb [] currentLength ((x # pre) @ rest)
          = ?B x @ packFiles fs cb [] (currentLength + length (?B x)) (pre @ rest)"
    using fit packFiles_context [of fs cb "?B x"] by (simp add: Let_def)
  with Cons.IH [OF fit] show ?case by (simp add: add.assoc)
qed

lemma packFiles_stopping:
  "currentLength
     + sum_list (map (\<lambda>x. length (buildFileContext fs (fileManager cb) x)) pre)
     + length (buildFileContext fs (fileManager cb) p)
     > maxContextLength cb \<Longrightarrow>
   \<exists>k\<le>length pre.
      packFiles fs cb [] currentLength (pre @ p # rest)
        = concat (map (buildFileContext fs (fileManager cb)) (take k pre)) @ limitNotice"
proof (induction pre arbitrary: currentLength)
  case Nil
  then show ?case by (simp add: Let_def)
next
  case (Cons x pre)
  let ?B = "buildFileContext fs (fileManager cb)"
  show ?case
  proof (cases "currentLength + length (?B x) > maxContextLength cb")
    case True
    then show ?thesis
      by (intro exI [of _ 0]) (simp add: Let_def)
  next
    case False
    from Cons.prems have "currentLength + length (?B x)
                            + sum_list (map (\<lambda>x. length (?B x)) pre) + length (?B p)
                            > maxContextLength cb"
      by simp
    from Cons.IH [OF this] obtain k where k: "k \<le> length pre"
      and out: "packFiles fs cb [] (currentLength + length (?B x)) (pre @ p # rest)
                  = concat (map ?B (take k pre)) @ limitNotice"
      by blast
    have "packFiles fs cb [] currentLength ((x # pre) @ p # rest)
            = ?B x @ packFiles fs cb [] (currentLength + length (?B x)) (pre @ p # rest)"
      using False packFiles_context [of fs cb "?B x"] by (simp add: Let_def)
    with k out show ?thesis
      by (intro exI [of _ "Suc k"]) simp
  qed
qed

lemma buildContext_output:
  "filesToInclude cb userMessage conversationHistory = files \<Longrightarrow> files \<noteq> [] \<Longrightarrow>
   fst (buildContext fs cb userMessage conversationHistory)
     = contextHeader @ packFiles fs cb [] 0 files @ contextFooter"
  using packFiles_context [of fs cb contextHeader 0 files]
  by (simp add: buildContext_def Let_def)

lemma buildContext_at:
  assumes "filesToInclude cb userMessage conversationHistory = pre @ p # rest"
  shows "(sum_list (map (\<lambda>x. length (buildFileContext fs (fileManager cb) x)) pre)
            + length (buildFileContext fs (fileManager cb) p) \<le> maxContextLength cb \<longrightarrow>
          (\<exists>k\<le>length rest.
             fst (buildContext fs cb userMessage conversationHistory)
               = contextHeader
                 @ concat (map (buildFileContext fs (fileManager cb)) pre)
                 @ buildFileContext fs (fileManager cb) p
                 @ concat (map (buildFileContext fs (fileManager cb)) (take k rest))
                 @ (if k < length rest then limitNotice else [])
                 @ contextFooter
           \<and> sum_list (map (\<lambda>x. length (buildFileContext fs (fileManager cb) x)) pre)
               + length (buildFileContext fs (fileManager cb) p)
               + sum_list (map (\<lambda>x. length (buildFileContext fs (fileManager cb) x)) (take k rest))
               \<le> maxContextLength cb
           \<and> (k < length rest \<longrightarrow>
                sum_list (map (\<lambda>x. length (buildFileContext fs (fileManager cb) x)) pre)
                  + length (buildFileContext fs (fileManager cb) p)
                  + sum_list (map (\<lambda>x. length (buildFileContext fs (fileManager cb) x))
                                  (take (Suc k) rest))
                  > maxContextLength cb)))
       \<and> (sum_list (map (\<lambda>x. length (buildFileContext fs (fileManager cb) x)) pre)
            + length (buildFileContext fs (fileManager cb) p) > maxContextLength cb \<longrightarrow>
          (\<exists>k\<le>length pre.
             fst (buildContext fs cb userMessage conversationHistory)
               = contextHeader
                 @ concat (map (buildFileContext fs (fileManager cb)) (take k pre))
                 @ limitNotice @ contextFooter))"
proof -
  let ?B = "buildFileContext fs (fileManager cb)"
  let ?S = "\<lambda>xs. sum_list (map (\<lambda>x. length (?B x)) xs)"
  have out: "fst (buildContext fs cb userMessage conversationHistory)
               = contextHeader @ packFiles fs cb [] 0 (pre @ p # rest) @ contextFooter"
    by (rule buildContext_output [OF assms]) simp
  have fits: "\<exists>k\<le>length rest.
             fst (buildContext fs cb userMessage conversationHistory)
               = contextHeader @ concat (map ?B pre) @ ?B p @ concat (map ?B (take k rest))
                 @ (if k < length rest then limitNotice else []) @ contextFooter
           \<and> ?S pre + length (?B p) + ?S (take k rest) \<le> maxContextLength cb
           \<and> (k < length rest \<longrightarrow>
                ?S pre + length (?B p) + ?S (take (Suc k) rest) > maxContextLength cb)"
    if fit: "?S pre + length (?B p) \<le> maxContextLength cb"
  proof -
    from fit have "0 + ?S (pre @ [p]) \<le> maxContextLength cb" by simp
    from packFiles_fitting [OF this, of rest]
    have step: "packFiles fs cb [] 0 (pre @ p # rest)
                  = concat (map ?B pre) @ ?B p
                    @ packFiles fs cb [] (?S pre + length (?B p)) rest"
      by simp
    from packFiles_prefix [OF fit, of rest fs] obtain k where "k \<le> length rest"
      "packFiles fs cb [] (?S pre + length (?B p)) rest
         = concat (map ?B (take k rest)) @ (if k < length rest then limitNotice else [])"
      "?S pre + length (?B p) + ?S (take k rest) \<le> maxContextLength cb"
      "k < length rest \<longrightarrow> ?S pre + length (?B p) + ?S (take (Suc k) rest) > maxContextLength cb"
      by blast
    with out step show ?thesis
      by (intro exI [of _ k]) simp
  qed
  have stops: "\<exists>k\<le>length pre.
             fst (buildContext fs cb userMessage conversationHistory)
               = contextHeader @ concat (map ?B (take k pre)) @ limitNotice @ contextFooter"
    if over: "?S pre + length (?B p) > maxContextLength cb"
  proof -
    from over have "0 + ?S pre + length (?B p) > maxContextLength cb" by simp
    from packFiles_stopping [OF this, of rest] obtain k where "k \<le> length pre"
      "packFiles fs cb [] 0 (pre @ p # rest) = concat (map ?B (take k pre)) @ limitNotice"
      by blast
    with out show ?thesis
      by (intro exI [of _ k]) simp
  qed
  from fits stops show ?thesis by blast
qed

lemma buildFileContext_read:
  "readFile fs' fm p = readFile fs fm p \<Longrightarrow> buildFileContext fs' fm p = buildFileContext fs fm p"
  by (simp add: buildFileContext_def)

lemma packFiles_read:
  "fileManager cb' = fileManager cb \<Longrightarrow> maxContextLength cb' = maxContextLength cb \<Longrightarrow>
   \<forall>p\<in>set files. readFile fs' (fileManager cb) p = readFile fs (fileManager cb) p \<Longrightarrow>
   packFiles fs' cb' ctx currentLength files = packFiles fs cb ctx currentLength files"
proof (induction files arbitrary: ctx currentLength)
  case Nil
  show ?case by simp
next
  case (Cons p rest)
  then have "buildFileContext fs' (fileManager cb) p = buildFileContext fs (fileManager cb) p"
    by (intro buildFileContext_read) simp
  with Cons show ?case by (simp add: Let_def)
qed

lemma takeWhile_first:
  "p \<notin> set ys \<Longrightarrow> takeWhile (\<lambda>x. x \<noteq> p) (ys @ p # zs) = ys"
  by (induction ys) auto

lemma buildFileContext_length_small:
  "readFile fs fm filePath = Some text \<Longrightarrow> text \<noteq> [] \<Longrightarrow> length text \<le> 2000 \<Longrightarrow>
   length (buildFileContext fs fm filePath) = length filePath + length text + 91"
  by (simp add: buildFileContext_def separator_def Let_def)

lemma buildFileContext_length_large:
  "readFile fs fm filePath = Some text \<Longrightarrow> length text > 2000 \<Longrightarrow>
   length (buildFileContext fs fm filePath) = length filePath + 2113"
  by (auto simp add: buildFileContext_def separator_def Let_def)

section \<open>The four-file project\<close>

lemma fourFiles_mentioned:
  "findMentionedFiles (fourFiles n) ''a.js b.js c.js d.js''
     = [''a.js'', ''b.js'', ''c.js'', ''d.js'']"
  by code_simp

lemma fourFiles_readFile:
  "readFile (fourFilesFs n) (fourFiles n) ''a.js'' = Some (replicate n CHR ''x'')"
  "readFile (fourFilesFs n) (fourFiles n) ''b.js'' = Some (replicate n CHR ''x'')"
  "readFile (fourFilesFs n) (fourFiles n) ''c.js'' = Some (replicate n CHR ''x'')"
  "readFile (fourFilesFs n) (fourFiles n) ''d.js'' = Some (replicate n CHR ''x'')"
  by (simp_all add: readFile_def fourFilesFs_def posixFs_def fourFiles_def
                    posixResolve_def posixAbsolute_def)

lemma fourFiles_builder:
  "fileManager (newContextBuilder (fourFiles n)) = fourFiles n"
  "maxContextLength (newContextBuilder (fourFiles n)) = 8000"
  by (simp_all add: newContextBuilder_def)

lemma fourFiles_selection:
  "filesToInclude (newContextBuilder (fourFiles n)) ''a.js b.js c.js d.js'' []
     = [''a.js'', ''b.js'', ''c.js'', ''d.js'']"
  by (simp add: filesToInclude_def fourFiles_builder fourFiles_mentioned
                findRecentlyMentionedFiles_def sliceLast_def newSet_def setAdd_def)

lemma includesStr_replicate:
  "c \<noteq> q \<Longrightarrow> includesStr (replicate n c @ s) (q # qs) = includesStr s (q # qs)"
  by (induction n) simp_all

lemma fourFiles_block:
  "p \<in> {''a.js'', ''b.js'', ''c.js'', ''d.js''} \<Longrightarrow>
   buildFileContext (fourFilesFs 2001) (fourFiles 2001) p =
     ''FILE: '' @ p @ ''\<newline>'' @ replicate 40 CHR ''='' @ ''\<newline>''
     @ replicate 2000 CHR ''x'' @ ''\<newline>... [File truncated]\<newline>''
     @ ''\<newline>'' @ replicate 40 CHR ''='' @ ''\<newline>\<newline>''"
  using fourFiles_readFile [of 2001]
  by (auto simp add: buildFileContext_def separator_def Let_def)

lemma fourFiles_packed:
  "packFiles (fourFilesFs 2001) (newContextBuilder (fourFiles 2001)) contextHeader 0
     [''a.js'', ''b.js'', ''c.js'', ''d.js'']
   = contextHeader
     @ buildFileContext (fourFilesFs 2001) (fourFiles 2001) ''a.js''
     @ buildFileContext (fourFilesFs 2001) (fourFiles 2001) ''b.js''
     @ buildFileContext (fourFilesFs 2001) (fourFiles 2001) ''c.js''
     @ limitNotice"
proof -
  have len: "length (buildFileContext (fourFilesFs 2001) (fourFiles 2001) p) = 2117"
    if "p \<in> {''a.js'', ''b.js'', ''c.js'', ''d.js''}" for p
    using that fourFiles_readFile [of 2001]
      buildFileContext_length_large
        [of "fourFilesFs 2001" "fourFiles 2001" p "replicate 2001 CHR ''x''"]
    by auto
  show ?thesis
    by (simp add: Let_def fourFiles_builder len)
qed

lemma fourFiles_no_d:
  "\<not> includesStr
        (packFiles (fourFilesFs 2001) (newContextBuilder (fourFiles 2001)) contextHeader 0
           [''a.js'', ''b.js'', ''c.js'', ''d.js''] @ contextFooter)
        ''FILE: d.js''"
  unfolding fourFiles_packed
  by (simp add: fourFiles_block contextHeader_def contextFooter_def limitNotice_def
                includesStr_replicate)


section \<open>The other concrete projects\<close>

lemma twoMissing_selection:
  "filesToInclude smallBudget (longName CHR ''a'' @ '' '' @ longName CHR ''b'') []
     = [longName CHR ''a'', longName CHR ''b'']"
  by code_simp

lemma twoMissing_block:
  "buildFileContext (posixFs ''/p'' []) (fileManager smallBudget) p
     = ''FILE: '' @ p @ ''\<newline>[Error: Could not read file]\<newline>\<newline>''"
  by (simp add: buildFileContext_def readFile_def posixFs_def)


lemma twoSizes_readFile:
  "readFile twoSizesFs twoSizes ''big.js'' = Some (replicate 5000 CHR ''x'')"
  "readFile twoSizesFs twoSizes ''small.js'' = Some (replicate 500 CHR ''y'')"
  by (simp_all add: readFile_def twoSizesFs_def posixFs_def twoSizes_def
                    posixResolve_def posixAbsolute_def)

lemma stale_readFile:
  "readFile staleFs staleIndex ''gone.js'' = None"
  "readFile staleFs staleIndex ''kept.js'' = Some ''ok''"
  by (simp_all add: readFile_def staleFs_def posixFs_def staleIndex_def
                    posixResolve_def posixAbsolute_def)

lemma fourFiles_quoted_selection:
  "filesToInclude (newContextBuilder (fourFiles n)) quotedD []
     = [''a.js'', ''b.js'', ''c.js'', ''d.js'']"
  by code_simp

lemma libProject_selection:
  "filesToInclude (newContextBuilder libProject) openQuoted [] = [''lib/file-manager.js'']"
  by code_simp

lemma libProject_readFile:
  "readFile libFs libProject ''lib/file-manager.js'' = Some ''ok''"
  by (simp add: readFile_def libFs_def posixFs_def libProject_def posixResolve_def
                posixAbsolute_def)

section \<open>The five-file project\<close>

lemma fiveFiles_selection:
  "filesToInclude (newContextBuilder fiveFiles) ''a.js b.js c.js e.js gone.js'' []
     = [''a.js'', ''b.js'', ''c.js'', ''e.js'', ''gone.js'']"
  by code_simp

lemma fiveFiles_readFile:
  "readFile fiveFilesFs fiveFiles ''a.js'' = Some (replicate 2001 CHR ''x'')"
  "readFile fiveFilesFs fiveFiles ''b.js'' = Some (replicate 2001 CHR ''x'')"
  "readFile fiveFilesFs fiveFiles ''c.js'' = Some (replicate 2001 CHR ''x'')"
  "readFile fiveFilesFs fiveFiles ''e.js'' = Some (replicate 1545 CHR ''x'')"
  "readFile fiveFilesFs fiveFiles ''gone.js'' = None"
  by (simp_all add: readFile_def fiveFilesFs_def posixFs_def fiveFiles_def
                    posixResolve_def posixAbsolute_def)

lemma fiveFiles_builder:
  "fileManager (newContextBuilder fiveFiles) = fiveFiles"
  "maxContextLength (newContextBuilder fiveFiles) = 8000"
  by (simp_all add: newContextBuilder_def)

lemma fiveFiles_block:
  "buildFileContext fiveFilesFs fiveFiles ''a.js'' =
     ''FILE: a.js\<newline>'' @ replicate 40 CHR ''='' @ ''\<newline>''
     @ replicate 2000 CHR ''x'' @ ''\<newline>... [File truncated]\<newline>''
     @ ''\<newline>'' @ replicate 40 CHR ''='' @ ''\<newline>\<newline>''"
  "buildFileContext fiveFilesFs fiveFiles ''b.js'' =
     ''FILE: b.js\<newline>'' @ replicate 40 CHR ''='' @ ''\<newline>''
     @ replicate 2000 CHR ''x'' @ ''\<newline>... [File truncated]\<newline>''
     @ ''\<newline>'' @ replicate 40 CHR ''='' @ ''\<newline>\<newline>''"
  "buildFileContext fiveFilesFs fiveFiles ''c.js'' =
     ''FILE: c.js\<newline>'' @ replicate 40 CHR ''='' @ ''\<newline>''
     @ replicate 2000 CHR ''x'' @ ''\<newline>... [File truncated]\<newline>''
     @ ''\<newline>'' @ replicate 40 CHR ''='' @ ''\<newline>\<newline>''"
  "buildFileContext fiveFilesFs fiveFiles ''e.js'' =
     ''FILE: e.js\<newline>'' @ replicate 40 CHR ''='' @ ''\<newline>''
     @ replicate 1545 CHR ''x''
     @ ''\<newline>'' @ replicate 40 CHR ''='' @ ''\<newline>\<newline>''"
  "buildFileContext fiveFilesFs fiveFiles ''gone.js'' =
     ''FILE: gone.js\<newline>[Error: Could not read file]\<newline>\<newline>''"
  by (simp_all add: buildFileContext_def fiveFiles_readFile separator_def Let_def)

lemma fiveFiles_packed:
  "packFiles fiveFilesFs (newContextBuilder fiveFiles) contextHeader 0
     [''a.js'', ''b.js'', ''c.js'', ''e.js'', ''gone.js'']
   = contextHeader
     @ buildFileContext fiveFilesFs fiveFiles ''a.js''
     @ buildFileContext fiveFilesFs fiveFiles ''b.js''
     @ buildFileContext fiveFilesFs fiveFiles ''c.js''
     @ buildFileContext fiveFilesFs fiveFiles ''e.js''
     @ limitNotice"
proof -
  have len:
    "length (buildFileContext fiveFilesFs fiveFiles ''a.js'') = 2117"
    "length (buildFileContext fiveFilesFs fiveFiles ''b.js'') = 2117"
    "length (buildFileContext fiveFilesFs fiveFiles ''c.js'') = 2117"
    "length (buildFileContext fiveFilesFs fiveFiles ''e.js'') = 1640"
    "length (buildFileContext fiveFilesFs fiveFiles ''gone.js'') = 44"
    by (simp_all add: fiveFiles_block)
  show ?thesis
    by (simp add: Let_def fiveFiles_builder len)
qed

lemma fiveFiles_output:
  "fst (buildContext fiveFilesFs (newContextBuilder fiveFiles) ''a.js b.js c.js e.js gone.js'' [])
     = packFiles fiveFilesFs (newContextBuilder fiveFiles) contextHeader 0
         [''a.js'', ''b.js'', ''c.js'', ''e.js'', ''gone.js''] @ contextFooter"
  by (simp only: buildContext_def Let_def fiveFiles_selection fst_conv) simp

lemma fiveFiles_no_gone:
  "\<not> includesStr
        (packFiles fiveFilesFs (newContextBuilder fiveFiles) contextHeader 0
           [''a.js'', ''b.js'', ''c.js'', ''e.js'', ''gone.js''] @ contextFooter)
        ''FILE: gone.js''"
  unfolding fiveFiles_packed
  by (simp add: fiveFiles_block contextHeader_def contextFooter_def limitNotice_def
                includesStr_replicate)

lemma fiveFiles_no_placeholder:
  "\<not> includesStr
        (packFiles fiveFilesFs (newContextBuilder fiveFiles) contextHeader 0
           [''a.js'', ''b.js'', ''c.js'', ''e.js'', ''gone.js''] @ contextFooter)
        ''[Error: Could not read file]''"
  unfolding fiveFiles_packed
  by (simp add: fiveFiles_block contextHeader_def contextFooter_def limitNotice_def
                includesStr_replicate)

section \<open>The stale index and the odd names\<close>

lemma stale_builder:
  "fileManager (newContextBuilder staleIndex) = staleIndex"
  "maxContextLength (newContextBuilder staleIndex) = 8000"
  by (simp_all add: newContextBuilder_def)

lemma stale_selection:
  "filesToInclude (newContextBuilder staleIndex) ''gone.js kept.js'' []
     = [''gone.js'', ''kept.js'']"
  "filesToInclude (newContextBuilder staleIndex) ''kept.js'' [] = [''kept.js'']"
  by code_simp+

lemma kept_readFile:
  "readFile changedFs staleIndex ''kept.js'' = Some ''changed''"
  "readFile staleFsExtra staleIndex ''kept.js'' = Some ''ok''"
  by (simp_all add: readFile_def changedFs_def staleFsExtra_def posixFs_def staleIndex_def
                    posixResolve_def posixAbsolute_def)

lemma kept_output:
  "fst (buildContext staleFs (newContextBuilder staleIndex) ''kept.js'' [])
     = contextHeader
       @ ''FILE: kept.js\<newline>'' @ replicate 40 CHR ''='' @ ''\<newline>''
       @ ''ok'' @ ''\<newline>'' @ replicate 40 CHR ''='' @ ''\<newline>\<newline>''
       @ contextFooter"
  "fst (buildContext changedFs (newContextBuilder staleIndex) ''kept.js'' [])
     = contextHeader
       @ ''FILE: kept.js\<newline>'' @ replicate 40 CHR ''='' @ ''\<newline>''
       @ ''changed'' @ ''\<newline>'' @ replicate 40 CHR ''='' @ ''\<newline>\<newline>''
       @ contextFooter"
  by (simp_all add: buildContext_def stale_selection Let_def stale_builder
                    buildFileContext_def stale_readFile kept_readFile separator_def)

lemma oddNames_outputs:
  "fst (buildContext oddNamesFs (newContextBuilder oddNames) quoteInside []) = []"
  "fst (buildContext oddNamesFs (newContextBuilder oddNames) quoteShared []) = []"
  by code_simp+

lemma oddNames_selection:
  "filesToInclude (newContextBuilder oddNames) openDash [] = [''a-.js'']"
  by code_simp

lemma oddNames_readFile:
  "readFile oddNamesFs oddNames ''a-.js'' = Some ''ok''"
  by (simp add: readFile_def oddNamesFs_def posixFs_def oddNames_def posixResolve_def
                posixAbsolute_def)

section \<open>Claims\<close>

text \<open>
  Claim C1, as stated: the length of the string returned by \<open>buildContext\<close> never exceeds
  the budget plus the length of the truncation notice.  This fails: the header and the
  footer are emitted outside the running total.  With four files of 1905 characters, each
  block is 2000 characters long, all four fit the budget of 8000 exactly, and the output
  is longer than 8000 plus the notice.
\<close>

theorem buildContext_length_counterexample:
  "length (fst (buildContext (fourFilesFs 1905) (newContextBuilder (fourFiles 1905))
                  ''a.js b.js c.js d.js'' []))
     > maxContextLength (newContextBuilder (fourFiles 1905)) + length limitNotice"
proof -
  have len: "length (buildFileContext (fourFilesFs 1905) (fourFiles 1905) p) = 2000"
    if "p \<in> {''a.js'', ''b.js'', ''c.js'', ''d.js''}" for p
    using that fourFiles_readFile [of 1905]
      buildFileContext_length_small
        [of "fourFilesFs 1905" "fourFiles 1905" p "replicate 1905 CHR ''x''"]
    by auto
  have "length (fst (buildContext (fourFilesFs 1905) (newContextBuilder (fourFiles 1905))
                       ''a.js b.js c.js d.js'' [])) = 8107"
    by (simp add: buildContext_def fourFiles_selection Let_def fourFiles_builder len
                  contextHeader_def contextFooter_def)
  then show ?thesis
    by (simp add: fourFiles_builder limitNotice_def)
qed

text \<open>
  Claim C1, amended: for every message, history and budget, the length of the string
  returned by \<open>buildContext\<close> never exceeds the budget plus the lengths of the header,
  of the truncation notice and of the footer.
\<close>

theorem buildContext_length_bound:
  "length (fst (buildContext fs cb userMessage conversationHistory))
     \<le> maxContextLength cb + length contextHeader + length limitNotice + length contextFooter"
proof -
  let ?files = "filesToInclude cb userMessage conversationHistory"
  have "length (packFiles fs cb contextHeader 0 ?files)
          = length contextHeader + length (packFiles fs cb [] 0 ?files)"
    using packFiles_context [of fs cb contextHeader 0 ?files] by simp
  moreover have "0 + length (packFiles fs cb [] 0 ?files)
                   \<le> maxContextLength cb + length limitNotice"
    by (rule packFiles_length) simp
  ultimately show ?thesis
    by (simp add: buildContext_def Let_def)
qed

text \<open>
  Claim C5: the continuity lookup takes the last four turns of the whole history, keeps
  the user turns among them, runs the candidate extraction on each, and returns the
  results in order of first appearance without duplicates.
\<close>

theorem findRecentlyMentionedFiles_window:
  "findRecentlyMentionedFiles fm conversationHistory =
     firstAppearance
       (concat (map (\<lambda>t. findMentionedFiles fm (content t))
                    (filter (\<lambda>t. role t = ''user'')
                            (drop (length conversationHistory - 4) conversationHistory))))"
  by (simp add: findRecentlyMentionedFiles_def sliceLast_def Let_def recent_fold foldl_setAdd)

text \<open>
  Claim C9, as stated: two calls of \<open>buildContext\<close> with the same message, the same
  history and an unchanged index return the same string.  This fails when a selected file
  changes between the calls, because every call reads the files again: with the index
  and the message unchanged, \<open>kept.js\<close> holding \<open>ok\<close> at the first call and \<open>changed\<close>
  at the second, the two strings differ.
\<close>

theorem buildContext_deterministic_counterexample:
  "fileManager (newContextBuilder staleIndex) = staleIndex
   \<and> fst (buildContext staleFs (newContextBuilder staleIndex) ''kept.js'' [])
       \<noteq> fst (buildContext changedFs (newContextBuilder staleIndex) ''kept.js'' [])"
  unfolding kept_output by (simp add: stale_builder)

text \<open>
  Claim C9, amended: two calls of \<open>buildContext\<close> with the same message and the same
  history, on builders with the same index and the same budget, return the same string
  whenever every selected file reads the same at both calls (the same text or the same
  failure); the state that an earlier call left in the builder has no influence.
\<close>

theorem buildContext_deterministic:
  assumes "fileManager cb' = fileManager cb"
    and "maxContextLength cb' = maxContextLength cb"
    and "\<forall>p\<in>set (filesToInclude cb userMessage conversationHistory).
           readFile fs' (fileManager cb) p = readFile fs (fileManager cb) p"
  shows "fst (buildContext fs' cb' userMessage conversationHistory)
           = fst (buildContext fs cb userMessage conversationHistory)"
proof -
  have sel: "filesToInclude cb' userMessage conversationHistory
               = filesToInclude cb userMessage conversationHistory"
    using assms(1) by (simp add: filesToInclude_def)
  show ?thesis
    using packFiles_read [OF assms]
    by (simp add: buildContext_def Let_def sel)
qed

text \<open>
  The instance of C9 where the second call runs on the builder that the first call left
  behind, after an unrelated file was added to the directory.
\<close>

theorem buildContext_deterministic_witness:
  "readFile staleFsExtra staleIndex ''kept.js'' = readFile staleFs staleIndex ''kept.js''
   \<and> fst (buildContext staleFsExtra
             (snd (buildContext staleFs (newContextBuilder staleIndex) ''kept.js'' []))
             ''kept.js'' [])
       = fst (buildContext staleFs (newContextBuilder staleIndex) ''kept.js'' [])"
proof -
  let ?cb = "newContextBuilder staleIndex"
  let ?cb' = "snd (buildContext staleFs ?cb ''kept.js'' [])"
  have h1: "fileManager ?cb' = fileManager ?cb"
    and h2: "maxContextLength ?cb' = maxContextLength ?cb"
    by (simp_all add: buildContext_def Let_def)
  have rd: "readFile staleFsExtra staleIndex ''kept.js'' = readFile staleFs staleIndex ''kept.js''"
    by (simp add: kept_readFile stale_readFile)
  have h3: "\<forall>p\<in>set (filesToInclude ?cb ''kept.js'' []).
              readFile staleFsExtra (fileManager ?cb) p = readFile staleFs (fileManager ?cb) p"
    unfolding stale_selection stale_builder using rd by simp
  from buildContext_deterministic [OF h1 h2 h3] rd show ?thesis by simp
qed

text \<open>
  Claim C2: for every non-empty selection the output is the header, the whole blocks of
  the first \<open>k\<close> selected files, the notice
  \<open>... (More files available but context limit reached)\<close> exactly when \<open>k\<close> is not the
  whole selection, and the footer, where the first \<open>k\<close> blocks fit the budget and the
  block after them would push the running total over it: that block is omitted entirely,
  one notice stands in its place, and no later file contributes.  In particular, with
  budget 100 and two blocks of 80 characters, the output holds the first block and the
  notice.
\<close>

theorem buildContext_budget:
  assumes "filesToInclude cb userMessage conversationHistory = files" and "files \<noteq> []"
  shows "(\<exists>k\<le>length files.
            fst (buildContext fs cb userMessage conversationHistory)
              = ''=== PROJECT CONTEXT ===\<newline>''
                @ ''Here are the relevant files from the user's project:\<newline>\<newline>''
                @ concat (map (buildFileContext fs (fileManager cb)) (take k files))
                @ (if k < length files
                   then ''... (More files available but context limit reached)\<newline>\<newline>''
                   else [])
                @ ''=== END PROJECT CONTEXT ===\<newline>\<newline>''
          \<and> sum_list (map (\<lambda>p. length (buildFileContext fs (fileManager cb) p)) (take k files))
                \<le> maxContextLength cb
          \<and> (k < length files \<longrightarrow>
                sum_list (map (\<lambda>p. length (buildFileContext fs (fileManager cb) p))
                              (take (Suc k) files))
                  > maxContextLength cb))
       \<and> (\<forall>p1 p2. files = [p1, p2] \<longrightarrow> maxContextLength cb = 100 \<longrightarrow>
              length (buildFileContext fs (fileManager cb) p1) = 80 \<longrightarrow>
              length (buildFileContext fs (fileManager cb) p2) = 80 \<longrightarrow>
              fst (buildContext fs cb userMessage conversationHistory)
                = ''=== PROJECT CONTEXT ===\<newline>''
                  @ ''Here are the relevant files from the user's project:\<newline>\<newline>''
                  @ buildFileContext fs (fileManager cb) p1
                  @ ''... (More files available but context limit reached)\<newline>\<newline>''
                  @ ''=== END PROJECT CONTEXT ===\<newline>\<newline>'')"
proof -
  have out: "fst (buildContext fs cb userMessage conversationHistory)
               = contextHeader @ packFiles fs cb [] 0 files @ contextFooter"
    by (rule buildContext_output [OF assms])
  have "0 \<le> maxContextLength cb" by simp
  from packFiles_prefix [OF this, of files fs] out
  have "\<exists>k\<le>length files.
            fst (buildContext fs cb userMessage conversationHistory)
              = contextHeader
                @ concat (map (buildFileContext fs (fileManager cb)) (take k files))
                @ (if k < length files then limitNotice else [])
                @ contextFooter
          \<and> sum_list (map (\<lambda>p. length (buildFileContext fs (fileManager cb) p)) (take k files))
                \<le> maxContextLength cb
          \<and> (k < length files \<longrightarrow>
                sum_list (map (\<lambda>p. length (buildFileContext fs (fileManager cb) p))
                              (take (Suc k) files))
                  > maxContextLength cb)"
    by auto
  then have general: "\<exists>k\<le>length files.
            fst (buildContext fs cb userMessage conversationHistory)
              = ''=== PROJECT CONTEXT ===\<newline>''
                @ ''Here are the relevant files from the user's project:\<newline>\<newline>''
                @ concat (map (buildFileContext fs (fileManager cb)) (take k files))
                @ (if k < length files
                   then ''... (More files available but context limit reached)\<newline>\<newline>''
                   else [])
                @ ''=== END PROJECT CONTEXT ===\<newline>\<newline>''
          \<and> sum_list (map (\<lambda>p. length (buildFileContext fs (fileManager cb) p)) (take k files))
                \<le> maxContextLength cb
          \<and> (k < length files \<longrightarrow>
                sum_list (map (\<lambda>p. length (buildFileContext fs (fileManager cb) p))
                              (take (Suc k) files))
                  > maxContextLength cb)"
    unfolding contextHeader_def limitNotice_def contextFooter_def
    by (simp only: append_assoc)
  have "fst (buildContext fs cb userMessage conversationHistory)
                = contextHeader @ buildFileContext fs (fileManager cb) p1
                  @ limitNotice @ contextFooter"
    if "files = [p1, p2]" "maxContextLength cb = 100"
       "length (buildFileContext fs (fileManager cb) p1) = 80"
       "length (buildFileContext fs (fileManager cb) p2) = 80" for p1 p2
    using that out by (simp add: Let_def)
  then have example: "fst (buildContext fs cb userMessage conversationHistory)
                = ''=== PROJECT CONTEXT ===\<newline>''
                  @ ''Here are the relevant files from the user's project:\<newline>\<newline>''
                  @ buildFileContext fs (fileManager cb) p1
                  @ ''... (More files available but context limit reached)\<newline>\<newline>''
                  @ ''=== END PROJECT CONTEXT ===\<newline>\<newline>''"
    if "files = [p1, p2]" "maxContextLength cb = 100"
       "length (buildFileContext fs (fileManager cb) p1) = 80"
       "length (buildFileContext fs (fileManager cb) p2) = 80" for p1 p2
    using that unfolding contextHeader_def limitNotice_def contextFooter_def
    by (simp only: append_assoc)
  from general example show ?thesis by blast
qed

text \<open>
  The instance of C2 where two unreadable files have placeholder blocks of 80 characters
  and the budget is 100.
\<close>

theorem buildContext_budget_witness:
  "filesToInclude smallBudget (longName CHR ''a'' @ '' '' @ longName CHR ''b'') []
     = [longName CHR ''a'', longName CHR ''b'']
   \<and> maxContextLength smallBudget = 100
   \<and> length (buildFileContext (posixFs ''/p'' []) (fileManager smallBudget) (longName CHR ''a'')) = 80
   \<and> length (buildFileContext (posixFs ''/p'' []) (fileManager smallBudget) (longName CHR ''b'')) = 80
   \<and> fst (buildContext (posixFs ''/p'' []) smallBudget
             (longName CHR ''a'' @ '' '' @ longName CHR ''b'') [])
       = ''=== PROJECT CONTEXT ===\<newline>''
         @ ''Here are the relevant files from the user's project:\<newline>\<newline>''
         @ (''FILE: '' @ longName CHR ''a'' @ ''\<newline>[Error: Could not read file]\<newline>\<newline>'')
         @ ''... (More files available but context limit reached)\<newline>\<newline>''
         @ ''=== END PROJECT CONTEXT ===\<newline>\<newline>''"
proof -
  have ne: "[longName CHR ''a'', longName CHR ''b''] \<noteq> []" by simp
  have m: "maxContextLength smallBudget = 100" by (simp add: smallBudget_def)
  have l: "length (buildFileContext (posixFs ''/p'' []) (fileManager smallBudget) (longName c)) = 80" for c
    by (simp add: twoMissing_block longName_def)
  from buildContext_budget [OF twoMissing_selection ne, of "posixFs ''/p'' []"]
  have "fst (buildContext (posixFs ''/p'' []) smallBudget
             (longName CHR ''a'' @ '' '' @ longName CHR ''b'') [])
       = ''=== PROJECT CONTEXT ===\<newline>''
         @ ''Here are the relevant files from the user's project:\<newline>\<newline>''
         @ buildFileContext (posixFs ''/p'' []) (fileManager smallBudget) (longName CHR ''a'')
         @ ''... (More files available but context limit reached)\<newline>\<newline>''
         @ ''=== END PROJECT CONTEXT ===\<newline>\<newline>''"
    using m l by blast
  then show ?thesis
    using twoMissing_selection m l by (simp add: twoMissing_block)
qed

text \<open>
  Claim C6: for a file that was read, a text of more than 2000 characters appears as its
  first 2000 characters followed by the \<open>[File truncated]\<close> marker, and a text of at most
  2000 characters appears in full with nothing added.  (A file that was read as the empty
  text gets the placeholder block: the source tests \<open>!content\<close>, which the empty string
  satisfies.)
\<close>

theorem buildFileContext_truncation:
  assumes "readFile fs fm filePath = Some text"
  shows "(length text > 2000 \<longrightarrow>
            buildFileContext fs fm filePath =
              ''FILE: '' @ filePath @ ''\<newline>'' @ replicate 40 CHR ''='' @ ''\<newline>''
              @ take 2000 text @ ''\<newline>... [File truncated]\<newline>''
              @ ''\<newline>'' @ replicate 40 CHR ''='' @ ''\<newline>\<newline>'')
       \<and> (length text \<le> 2000 \<longrightarrow>
            buildFileContext fs fm filePath =
              (if text = []
               then ''FILE: '' @ filePath @ ''\<newline>[Error: Could not read file]\<newline>\<newline>''
               else ''FILE: '' @ filePath @ ''\<newline>'' @ replicate 40 CHR ''='' @ ''\<newline>''
                    @ text @ ''\<newline>'' @ replicate 40 CHR ''='' @ ''\<newline>\<newline>''))"
  using assms by (auto simp add: buildFileContext_def separator_def Let_def)

text \<open>
  The instances of C6 that the specification names: a file of 5000 characters is cut to
  2000 and marked, a file of 500 characters appears in full.
\<close>

theorem buildFileContext_truncation_witness:
  "readFile twoSizesFs twoSizes ''big.js'' = Some (replicate 5000 CHR ''x'')
   \<and> buildFileContext twoSizesFs twoSizes ''big.js'' =
       ''FILE: big.js\<newline>'' @ replicate 40 CHR ''='' @ ''\<newline>''
       @ replicate 2000 CHR ''x'' @ ''\<newline>... [File truncated]\<newline>''
       @ ''\<newline>'' @ replicate 40 CHR ''='' @ ''\<newline>\<newline>''
   \<and> readFile twoSizesFs twoSizes ''small.js'' = Some (replicate 500 CHR ''y'')
   \<and> buildFileContext twoSizesFs twoSizes ''small.js'' =
       ''FILE: small.js\<newline>'' @ replicate 40 CHR ''='' @ ''\<newline>''
       @ replicate 500 CHR ''y''
       @ ''\<newline>'' @ replicate 40 CHR ''='' @ ''\<newline>\<newline>''"
  using buildFileContext_truncation [OF twoSizes_readFile(1)]
        buildFileContext_truncation [OF twoSizes_readFile(2)]
        twoSizes_readFile
  by simp

text \<open>
  Claim C7, as stated: a selected file whose read fails is never omitted; its placeholder
  block is emitted and packing goes on.  This fails when the budget is reached at that
  file: the placeholder goes through the same budget test as every block.  In the
  five-file project the blocks of \<open>a.js\<close>, \<open>b.js\<close>, \<open>c.js\<close> and \<open>e.js\<close> take 7991
  characters, the placeholder of \<open>gone.js\<close> has 44, and the output holds neither its
  label nor the placeholder text.
\<close>

theorem buildFileContext_unreadable_counterexample:
  "readFile fiveFilesFs (fileManager (newContextBuilder fiveFiles)) ''gone.js'' = None
   \<and> ''gone.js''
       \<in> set (filesToInclude (newContextBuilder fiveFiles) ''a.js b.js c.js e.js gone.js'' [])
   \<and> \<not> includesStr
          (fst (buildContext fiveFilesFs (newContextBuilder fiveFiles)
                  ''a.js b.js c.js e.js gone.js'' []))
          ''FILE: gone.js''
   \<and> \<not> includesStr
          (fst (buildContext fiveFilesFs (newContextBuilder fiveFiles)
                  ''a.js b.js c.js e.js gone.js'' []))
          ''[Error: Could not read file]''"
  unfolding fiveFiles_output
  using fiveFiles_no_gone fiveFiles_no_placeholder
  by (simp add: fiveFiles_builder fiveFiles_readFile fiveFiles_selection)

text \<open>
  Claim C7, amended: when the read of a selected file fails, the block rendered for it is
  the placeholder \<open>[Error: Could not read file]\<close> under the label of its path.  If the
  blocks of the files selected before it and the placeholder total at most the budget,
  the output holds the placeholder right after those blocks, and packing goes on with the
  rest of the selection: the blocks of the next \<open>k\<close> files follow, as many as fit, and the
  notice after them if the selection is not exhausted.  Otherwise the output ends, before
  the footer, with blocks of files selected before it and the notice, as for any block
  that does not fit.
\<close>

theorem buildFileContext_unreadable:
  assumes "filesToInclude cb userMessage conversationHistory = pre @ filePath # rest"
    and "readFile fs (fileManager cb) filePath = None"
  shows "buildFileContext fs (fileManager cb) filePath
           = ''FILE: '' @ filePath @ ''\<newline>[Error: Could not read file]\<newline>\<newline>''
       \<and> (sum_list (map (\<lambda>x. length (buildFileContext fs (fileManager cb) x)) pre)
            + length (''FILE: '' @ filePath @ ''\<newline>[Error: Could not read file]\<newline>\<newline>'')
            \<le> maxContextLength cb \<longrightarrow>
          (\<exists>k\<le>length rest.
             fst (buildContext fs cb userMessage conversationHistory)
               = ''=== PROJECT CONTEXT ===\<newline>''
                 @ ''Here are the relevant files from the user's project:\<newline>\<newline>''
                 @ concat (map (buildFileContext fs (fileManager cb)) pre)
                 @ ''FILE: '' @ filePath @ ''\<newline>[Error: Could not read file]\<newline>\<newline>''
                 @ concat (map (buildFileContext fs (fileManager cb)) (take k rest))
                 @ (if k < length rest
                    then ''... (More files available but context limit reached)\<newline>\<newline>''
                    else [])
                 @ ''=== END PROJECT CONTEXT ===\<newline>\<newline>''
           \<and> sum_list (map (\<lambda>x. length (buildFileContext fs (fileManager cb) x)) pre)
               + length (''FILE: '' @ filePath @ ''\<newline>[Error: Could not read file]\<newline>\<newline>'')
               + sum_list (map (\<lambda>x. length (buildFileContext fs (fileManager cb) x)) (take k rest))
               \<le> maxContextLength cb
           \<and> (k < length rest \<longrightarrow>
                sum_list (map (\<lambda>x. length (buildFileContext fs (fileManager cb) x)) pre)
                  + length (''FILE: '' @ filePath @ ''\<newline>[Error: Could not read file]\<newline>\<newline>'')
                  + sum_list (map (\<lambda>x. length (buildFileContext fs (fileManager cb) x))
                                  (take (Suc k) rest))
                  > maxContextLength cb)))
       \<and> (sum_list (map (\<lambda>x. length (buildFileContext fs (fileManager cb) x)) pre)
            + length (''FILE: '' @ filePath @ ''\<newline>[Error: Could not read file]\<newline>\<newline>'')
            > maxContextLength cb \<longrightarrow>
          (\<exists>k\<le>length pre.
             fst (buildContext fs cb userMessage conversationHistory)
               = ''=== PROJECT CONTEXT ===\<newline>''
                 @ ''Here are the relevant files from the user's project:\<newline>\<newline>''
                 @ concat (map (buildFileContext fs (fileManager cb)) (take k pre))
                 @ ''... (More files available but context limit reached)\<newline>\<newline>''
                 @ ''=== END PROJECT CONTEXT ===\<newline>\<newline>''))"
proof -
  have b: "buildFileContext fs (fileManager cb) filePath
             = ''FILE: '' @ filePath @ ''\<newline>[Error: Could not read file]\<newline>\<newline>''"
    using assms(2) by (simp add: buildFileContext_def)
  from buildContext_at [OF assms(1), of fs]
  show ?thesis
    unfolding b contextHeader_def limitNotice_def contextFooter_def
    by (simp only: b append_assoc simp_thms)
qed

text \<open>
  The instance of C7 where \<open>gone.js\<close> cannot be read: its placeholder is emitted and the
  block of \<open>kept.js\<close> follows it.
\<close>

theorem buildFileContext_unreadable_witness:
  "filesToInclude (newContextBuilder staleIndex) ''gone.js kept.js'' []
     = [] @ ''gone.js'' # [''kept.js'']
   \<and> readFile staleFs (fileManager (newContextBuilder staleIndex)) ''gone.js'' = None
   \<and> fst (buildContext staleFs (newContextBuilder staleIndex) ''gone.js kept.js'' [])
       = ''=== PROJECT CONTEXT ===\<newline>''
         @ ''Here are the relevant files from the user's project:\<newline>\<newline>''
         @ ''FILE: gone.js\<newline>[Error: Could not read file]\<newline>\<newline>''
         @ ''FILE: kept.js\<newline>'' @ replicate 40 CHR ''='' @ ''\<newline>''
         @ ''ok'' @ ''\<newline>'' @ replicate 40 CHR ''='' @ ''\<newline>\<newline>''
         @ ''=== END PROJECT CONTEXT ===\<newline>\<newline>''"
proof -
  let ?cb = "newContextBuilder staleIndex"
  let ?out = "fst (buildContext staleFs ?cb ''gone.js kept.js'' [])"
  have sel: "filesToInclude ?cb ''gone.js kept.js'' [] = [] @ ''gone.js'' # [''kept.js'']"
    by (simp add: stale_selection)
  have rd: "readFile staleFs (fileManager ?cb) ''gone.js'' = None"
    by (simp add: stale_builder stale_readFile)
  have kept: "buildFileContext staleFs (fileManager ?cb) ''kept.js''
                = ''FILE: kept.js\<newline>'' @ replicate 40 CHR ''='' @ ''\<newline>''
                  @ ''ok'' @ ''\<newline>'' @ replicate 40 CHR ''='' @ ''\<newline>\<newline>''"
    by (simp add: stale_builder buildFileContext_def stale_readFile separator_def)
  have mx: "maxContextLength ?cb = 8000" by (rule stale_builder)
  from buildFileContext_unreadable [OF sel rd] obtain k where k: "k \<le> 1"
    and out: "?out = ''=== PROJECT CONTEXT ===\<newline>''
                 @ ''Here are the relevant files from the user's project:\<newline>\<newline>''
                 @ ''FILE: gone.js\<newline>[Error: Could not read file]\<newline>\<newline>''
                 @ concat (map (buildFileContext staleFs (fileManager ?cb)) (take k [''kept.js'']))
                 @ (if k < 1
                    then ''... (More files available but context limit reached)\<newline>\<newline>''
                    else [])
                 @ ''=== END PROJECT CONTEXT ===\<newline>\<newline>''"
    and over: "k < 1 \<longrightarrow>
                 length (''FILE: gone.js\<newline>[Error: Could not read file]\<newline>\<newline>'')
                 + sum_list (map (\<lambda>x. length (buildFileContext staleFs (fileManager ?cb) x))
                                 (take (Suc k) [''kept.js'']))
                 > 8000"
    unfolding mx by auto
  have "k = 1"
  proof (rule ccontr)
    assume "k \<noteq> 1"
    with k have "k = 0" by simp
    with over show False by (simp add: kept)
  qed
  with out sel rd show ?thesis by (simp add: kept)
qed

text \<open>
  Claim C10: after a call of \<open>buildContext\<close>, \<open>getCurrentContext\<close> returns the whole
  selection of that turn, the files of the message followed by those of the recent
  history, deduplicated in order of first appearance, whatever the budget let through.
  In the four-file project with files of 2001 characters, \<open>d.js\<close> is listed although its
  block was dropped from the output.
\<close>

theorem getCurrentContext_selection:
  "getCurrentContext (snd (buildContext fs cb userMessage conversationHistory))
     = firstAppearance (findMentionedFiles (fileManager cb) userMessage
                        @ findRecentlyMentionedFiles (fileManager cb) conversationHistory)
   \<and> ''d.js'' \<in> set (getCurrentContext
                        (snd (buildContext (fourFilesFs 2001) (newContextBuilder (fourFiles 2001))
                                ''a.js b.js c.js d.js'' [])))
   \<and> \<not> includesStr
          (fst (buildContext (fourFilesFs 2001) (newContextBuilder (fourFiles 2001))
                  ''a.js b.js c.js d.js'' []))
          ''FILE: d.js''"
proof -
  have general: "getCurrentContext (snd (buildContext fs cb userMessage conversationHistory))
     = firstAppearance (findMentionedFiles (fileManager cb) userMessage
                        @ findRecentlyMentionedFiles (fileManager cb) conversationHistory)"
    by (simp add: getCurrentContext_def buildContext_def Let_def filesToInclude_def
                  newSet_firstAppearance)
  have listed: "''d.js'' \<in> set (getCurrentContext
                        (snd (buildContext (fourFilesFs 2001) (newContextBuilder (fourFiles 2001))
                                ''a.js b.js c.js d.js'' [])))"
    by (simp add: getCurrentContext_def buildContext_def Let_def fourFiles_selection)
  have out: "fst (buildContext (fourFilesFs 2001) (newContextBuilder (fourFiles 2001))
                  ''a.js b.js c.js d.js'' [])
             = packFiles (fourFilesFs 2001) (newContextBuilder (fourFiles 2001)) contextHeader 0
                 [''a.js'', ''b.js'', ''c.js'', ''d.js''] @ contextFooter"
    by (simp only: buildContext_def Let_def fourFiles_selection fst_conv) simp
  show ?thesis
    using general listed fourFiles_no_d unfolding out by blast
qed

text \<open>
  Claim C3, as stated: whenever the message holds a quoted literal filename that exists
  in the index, the output has a \<open>FILE:\<close> block for its path.  This fails in three ways.
  The budget may be reached first: in the four-file project with files of 2001
  characters the message names \<open>d.js\<close> between double quotes, the blocks of \<open>a.js\<close>,
  \<open>b.js\<close> and \<open>c.js\<close> take 6351 characters, the fourth block would exceed 8000, and the
  output has no \<open>FILE: d.js\<close>.  A quote inside the literal is stripped before the
  lookup: \<open>open "it'.js"\<close> selects nothing although \<open>it'.js\<close> is in the index.  And an
  opening quote that directly follows a quoted token is taken as the closing quote of
  that token: \<open>"x.y"a-.js"\<close> selects nothing although \<open>a-.js\<close> is in the index.
\<close>

theorem quoted_literal_counterexample:
  "quotedD = ''a.js b.js c.js '' @ [dquote] @ ''d.js'' @ [dquote]
   \<and> rootFile ''/p'' ''d.js'' ''.js'' 2001
       \<in> set (projectFiles (fileManager (newContextBuilder (fourFiles 2001))))
   \<and> name (rootFile ''/p'' ''d.js'' ''.js'' 2001) = ''d.js''
   \<and> relativePath (rootFile ''/p'' ''d.js'' ''.js'' 2001) = ''d.js''
   \<and> \<not> includesStr
          (fst (buildContext (fourFilesFs 2001) (newContextBuilder (fourFiles 2001)) quotedD []))
          ''FILE: d.js''
   \<and> quoteInside = ''open '' @ [dquote] @ ''it'.js'' @ [dquote]
   \<and> rootFile ''/p'' ''it'.js'' ''.js'' 2
       \<in> set (projectFiles (fileManager (newContextBuilder oddNames)))
   \<and> name (rootFile ''/p'' ''it'.js'' ''.js'' 2) = ''it'.js''
   \<and> fst (buildContext oddNamesFs (newContextBuilder oddNames) quoteInside []) = []
   \<and> quoteShared = [dquote] @ ''x.y'' @ [dquote] @ ''a-.js'' @ [dquote]
   \<and> rootFile ''/p'' ''a-.js'' ''.js'' 2
       \<in> set (projectFiles (fileManager (newContextBuilder oddNames)))
   \<and> name (rootFile ''/p'' ''a-.js'' ''.js'' 2) = ''a-.js''
   \<and> fst (buildContext oddNamesFs (newContextBuilder oddNames) quoteShared []) = []"
proof -
  have out: "fst (buildContext (fourFilesFs 2001) (newContextBuilder (fourFiles 2001)) quotedD [])
             = packFiles (fourFilesFs 2001) (newContextBuilder (fourFiles 2001)) contextHeader 0
                 [''a.js'', ''b.js'', ''c.js'', ''d.js''] @ contextFooter"
    by (simp only: buildContext_def Let_def fourFiles_quoted_selection fst_conv) simp
  have idx: "rootFile ''/p'' ''d.js'' ''.js'' 2001
               \<in> set (projectFiles (fileManager (newContextBuilder (fourFiles 2001))))"
    unfolding fourFiles_builder by (simp add: fourFiles_def)
  have budget: "\<not> includesStr
          (fst (buildContext (fourFilesFs 2001) (newContextBuilder (fourFiles 2001)) quotedD []))
          ''FILE: d.js''"
    using fourFiles_no_d unfolding out .
  have odd: "rootFile ''/p'' ''it'.js'' ''.js'' 2
               \<in> set (projectFiles (fileManager (newContextBuilder oddNames)))"
            "rootFile ''/p'' ''a-.js'' ''.js'' 2
               \<in> set (projectFiles (fileManager (newContextBuilder oddNames)))"
    by (simp_all add: newContextBuilder_def oddNames_def)
  show ?thesis
    using idx budget odd oddNames_outputs
    by (simp add: quotedD_def quoteInside_def quoteShared_def rootFile_def)
qed

text \<open>
  Claim C3, amended: let the message hold a literal between two backticks, two double
  quotes or two single quotes, let the literal be the name or the relative path of a file
  of the index, and let it either end in a token of the literal pass (word characters or
  slashes, a dot, a word-character extension), or consist of a stem without backticks
  and quotes, a dot and a word-character extension, with its opening quote at the start
  of the message or after a character that is not a word character.  Then the relative
  path of the file is in the selection of the turn, which \<open>getCurrentContext\<close> returns.
  If the blocks of the files selected before it and its own block total at most the
  budget, the output holds its block, which begins with \<open>FILE:\<close>, the path and a line
  break, right after the header and the blocks of those files.  Otherwise the file gets
  no block: the output is the header, blocks of files selected before it, the notice and
  the footer.
\<close>

theorem quoted_literal_selected:
  assumes "q = backtick \<or> q = dquote \<or> q = squote"
    and "userMessage = before @ [q] @ literal @ [q] @ rest"
    and "literal = front @ stem @ ''.'' @ ext"
    and "stem \<noteq> []" "ext \<noteq> []" "list_all isWordChar ext"
    and "list_all isWordOrSlash stem
         \<or> (front = []
            \<and> list_all (\<lambda>c. c \<noteq> backtick \<and> c \<noteq> dquote \<and> c \<noteq> squote) stem
            \<and> (before = [] \<or> \<not> isWordChar (last before)))"
    and "file \<in> set (projectFiles (fileManager cb))"
    and "name file = literal \<or> relativePath file = literal"
    and "files = getCurrentContext (snd (buildContext fs cb userMessage conversationHistory))"
    and "pre = takeWhile (\<lambda>p. p \<noteq> relativePath file) files"
  shows "relativePath file \<in> set files
       \<and> (sum_list (map (\<lambda>x. length (buildFileContext fs (fileManager cb) x)) pre)
            + length (buildFileContext fs (fileManager cb) (relativePath file))
            \<le> maxContextLength cb \<longrightarrow>
          (\<exists>body tail.
             buildFileContext fs (fileManager cb) (relativePath file)
               = ''FILE: '' @ relativePath file @ ''\<newline>'' @ body
           \<and> fst (buildContext fs cb userMessage conversationHistory)
               = ''=== PROJECT CONTEXT ===\<newline>''
                 @ ''Here are the relevant files from the user's project:\<newline>\<newline>''
                 @ concat (map (buildFileContext fs (fileManager cb)) pre)
                 @ ''FILE: '' @ relativePath file @ ''\<newline>'' @ body @ tail))
       \<and> (sum_list (map (\<lambda>x. length (buildFileContext fs (fileManager cb) x)) pre)
            + length (buildFileContext fs (fileManager cb) (relativePath file))
            > maxContextLength cb \<longrightarrow>
          (\<exists>k\<le>length pre.
             fst (buildContext fs cb userMessage conversationHistory)
               = ''=== PROJECT CONTEXT ===\<newline>''
                 @ ''Here are the relevant files from the user's project:\<newline>\<newline>''
                 @ concat (map (buildFileContext fs (fileManager cb)) (take k pre))
                 @ ''... (More files available but context limit reached)\<newline>\<newline>''
                 @ ''=== END PROJECT CONTEXT ===\<newline>\<newline>''))"
proof -
  let ?B = "buildFileContext fs (fileManager cb)"
  let ?p = "relativePath file"
  let ?out = "fst (buildContext fs cb userMessage conversationHistory)"
  have cur: "files = filesToInclude cb userMessage conversationHistory"
    using assms(10) by (simp add: getCurrentContext_def buildContext_def Let_def)
  have "?p \<in> set (findMentionedFiles (fileManager cb) userMessage)"
    using assms(7)
  proof
    assume "list_all isWordOrSlash stem"
    from literal_tail_mentioned [OF assms(1,4) this assms(5,6), of "file" "fileManager cb" front before rest]
    show ?thesis using assms(2,3,8,9) by simp
  next
    assume b: "front = []
            \<and> list_all (\<lambda>c. c \<noteq> backtick \<and> c \<noteq> dquote \<and> c \<noteq> squote) stem
            \<and> (before = [] \<or> \<not> isWordChar (last before))"
    then have s: "list_all (\<lambda>c. c \<noteq> backtick \<and> c \<noteq> dquote \<and> c \<noteq> squote) stem"
      and o: "before = [] \<or> \<not> isWordChar (last before)" by simp_all
    from literal_quoted_mentioned [OF assms(1,4) s assms(5,6) o, of "file" "fileManager cb" rest]
    show ?thesis using assms(2,3,8,9) b by simp
  qed
  then have sel: "?p \<in> set files"
    unfolding cur
    by (simp add: filesToInclude_def Let_def newSet_firstAppearance set_firstAppearance)
  then obtain ys zs where split: "files = ys @ ?p # zs" and first: "?p \<notin> set ys"
    by (meson split_list_first)
  have pre: "pre = ys"
    unfolding assms(11) split using first by (rule takeWhile_first)
  have at: "filesToInclude cb userMessage conversationHistory = pre @ ?p # zs"
    using cur split pre by simp
  obtain body where body: "?B ?p = ''FILE: '' @ ?p @ ''\<newline>'' @ body"
    using buildFileContext_label_line by blast
  have fits: "\<exists>body tail. ?B ?p = ''FILE: '' @ ?p @ ''\<newline>'' @ body
           \<and> ?out = ''=== PROJECT CONTEXT ===\<newline>''
                 @ ''Here are the relevant files from the user's project:\<newline>\<newline>''
                 @ concat (map ?B pre) @ ''FILE: '' @ ?p @ ''\<newline>'' @ body @ tail"
    if "sum_list (map (\<lambda>x. length (?B x)) pre) + length (?B ?p) \<le> maxContextLength cb"
  proof -
    from buildContext_at [OF at, of fs] that obtain k
      where "?out = contextHeader @ concat (map ?B pre) @ ?B ?p @ concat (map ?B (take k zs))
                      @ (if k < length zs then limitNotice else []) @ contextFooter"
      by blast
    then have "?out = ''=== PROJECT CONTEXT ===\<newline>''
                 @ ''Here are the relevant files from the user's project:\<newline>\<newline>''
                 @ concat (map ?B pre) @ ''FILE: '' @ ?p @ ''\<newline>'' @ body
                 @ (concat (map ?B (take k zs))
                    @ (if k < length zs then limitNotice else []) @ contextFooter)"
      unfolding contextHeader_def body by (simp only: append_assoc)
    with body show ?thesis by blast
  qed
  have stops: "\<exists>k\<le>length pre.
             ?out = ''=== PROJECT CONTEXT ===\<newline>''
                 @ ''Here are the relevant files from the user's project:\<newline>\<newline>''
                 @ concat (map ?B (take k pre))
                 @ ''... (More files available but context limit reached)\<newline>\<newline>''
                 @ ''=== END PROJECT CONTEXT ===\<newline>\<newline>''"
    if "sum_list (map (\<lambda>x. length (?B x)) pre) + length (?B ?p) > maxContextLength cb"
    using buildContext_at [OF at, of fs] that
    unfolding contextHeader_def limitNotice_def contextFooter_def
    by (simp only: append_assoc)
  from sel fits stops show ?thesis by blast
qed

text \<open>
  Two instances of C3: the message \<open>open "file-manager.js"\<close> with the index holding
  \<open>lib/file-manager.js\<close>, where the literal ends in the token \<open>manager.js\<close>, and the
  message \<open>open "a-.js"\<close> with the index holding \<open>a-.js\<close>, which only the double-quote
  pattern matches.
\<close>

theorem quoted_literal_selected_witness:
  "''lib/file-manager.js''
     \<in> set (getCurrentContext
               (snd (buildContext libFs (newContextBuilder libProject) openQuoted [])))
   \<and> includesStr
         (fst (buildContext libFs (newContextBuilder libProject) openQuoted []))
         ''FILE: lib/file-manager.js\<newline>''
   \<and> ''a-.js''
     \<in> set (getCurrentContext
               (snd (buildContext oddNamesFs (newContextBuilder oddNames) openDash [])))
   \<and> includesStr
         (fst (buildContext oddNamesFs (newContextBuilder oddNames) openDash []))
         ''FILE: a-.js\<newline>''"
proof -
  have q: "dquote = backtick \<or> dquote = dquote \<or> dquote = squote" by simp
  have inc: "includesStr out (''FILE: '' @ p @ ''\<newline>'')"
    if "\<exists>body tail. b = ''FILE: '' @ p @ ''\<newline>'' @ body
          \<and> out = ''=== PROJECT CONTEXT ===\<newline>''
                  @ ''Here are the relevant files from the user's project:\<newline>\<newline>''
                  @ concat (map g []) @ ''FILE: '' @ p @ ''\<newline>'' @ body @ tail"
    for out b p and g :: "string \<Rightarrow> string"
  proof -
    from that obtain body tail
      where "out = (''=== PROJECT CONTEXT ===\<newline>''
                  @ ''Here are the relevant files from the user's project:\<newline>\<newline>'')
                  @ (''FILE: '' @ p @ ''\<newline>'') @ (body @ tail)"
      by auto
    then show ?thesis by (simp only: includesStr_append)
  qed
  have first: "''lib/file-manager.js''
     \<in> set (getCurrentContext
               (snd (buildContext libFs (newContextBuilder libProject) openQuoted [])))
   \<and> includesStr
         (fst (buildContext libFs (newContextBuilder libProject) openQuoted []))
         (''FILE: '' @ ''lib/file-manager.js'' @ ''\<newline>'')"
  proof -
    let ?f = "\<lparr> name = ''file-manager.js'', path = ''/p/lib/file-manager.js'',
                relativePath = ''lib/file-manager.js'', extension = ''.js'', fsize = 2 \<rparr>"
    let ?cb = "newContextBuilder libProject"
    have fm: "fileManager ?cb = libProject" and mx: "maxContextLength ?cb = 8000"
      by (simp_all add: newContextBuilder_def)
    have cur: "getCurrentContext (snd (buildContext libFs ?cb openQuoted []))
                 = [''lib/file-manager.js'']"
      by (simp add: getCurrentContext_def buildContext_def Let_def libProject_selection)
    have len: "length (buildFileContext libFs libProject ''lib/file-manager.js'') = 112"
      using buildFileContext_length_small [OF libProject_readFile] by simp
    have h2: "openQuoted = ''open '' @ [dquote] @ ''file-manager.js'' @ [dquote] @ []"
      by (simp add: openQuoted_def)
    have h3: "''file-manager.js'' = ''file-'' @ ''manager'' @ ''.'' @ ''js''" by simp
    have h4: "''manager'' \<noteq> []" "''js'' \<noteq> []" "list_all isWordChar ''js''"
      by (simp_all add: isWordChar_def)
    have h7: "list_all isWordOrSlash ''manager''
              \<or> (''file-'' = []
                 \<and> list_all (\<lambda>c. c \<noteq> backtick \<and> c \<noteq> dquote \<and> c \<noteq> squote) ''manager''
                 \<and> (''open '' = [] \<or> \<not> isWordChar (last ''open '')))"
      by (simp add: isWordOrSlash_def isWordChar_def)
    have h8: "?f \<in> set (projectFiles (fileManager ?cb))"
      unfolding fm by (simp add: libProject_def)
    have h9: "name ?f = ''file-manager.js'' \<or> relativePath ?f = ''file-manager.js''" by simp
    have h10: "[''lib/file-manager.js''] = getCurrentContext (snd (buildContext libFs ?cb openQuoted []))"
      by (simp add: cur)
    have h11: "[] = takeWhile (\<lambda>p. p \<noteq> relativePath ?f) [''lib/file-manager.js'']"
      by simp
    from quoted_literal_selected [OF q h2 h3 h4 h7 h8 h9 h10 h11]
    have "relativePath ?f \<in> set [''lib/file-manager.js'']"
      and "\<exists>body tail. buildFileContext libFs (fileManager ?cb) (relativePath ?f)
                 = ''FILE: '' @ relativePath ?f @ ''\<newline>'' @ body
              \<and> fst (buildContext libFs ?cb openQuoted [])
                 = ''=== PROJECT CONTEXT ===\<newline>''
                   @ ''Here are the relevant files from the user's project:\<newline>\<newline>''
                   @ concat (map (buildFileContext libFs (fileManager ?cb)) [])
                   @ ''FILE: '' @ relativePath ?f @ ''\<newline>'' @ body @ tail"
      using len unfolding fm mx by simp_all
    from this(1) inc [OF this(2)] show ?thesis
      unfolding cur by simp
  qed
  have second: "''a-.js''
     \<in> set (getCurrentContext
               (snd (buildContext oddNamesFs (newContextBuilder oddNames) openDash [])))
   \<and> includesStr
         (fst (buildContext oddNamesFs (newContextBuilder oddNames) openDash []))
         (''FILE: '' @ ''a-.js'' @ ''\<newline>'')"
  proof -
    let ?f = "rootFile ''/p'' ''a-.js'' ''.js'' 2"
    let ?cb = "newContextBuilder oddNames"
    have fm: "fileManager ?cb = oddNames" and mx: "maxContextLength ?cb = 8000"
      by (simp_all add: newContextBuilder_def)
    have rp: "relativePath ?f = ''a-.js''" by (simp add: rootFile_def)
    have cur: "getCurrentContext (snd (buildContext oddNamesFs ?cb openDash [])) = [''a-.js'']"
      by (simp add: getCurrentContext_def buildContext_def Let_def oddNames_selection)
    have len: "length (buildFileContext oddNamesFs oddNames ''a-.js'') = 98"
      using buildFileContext_length_small [OF oddNames_readFile] by simp
    have h2: "openDash = ''open '' @ [dquote] @ ''a-.js'' @ [dquote] @ []"
      by (simp add: openDash_def)
    have h3: "''a-.js'' = [] @ ''a-'' @ ''.'' @ ''js''" by simp
    have h4: "''a-'' \<noteq> []" "''js'' \<noteq> []" "list_all isWordChar ''js''"
      by (simp_all add: isWordChar_def)
    have h7: "list_all isWordOrSlash ''a-''
              \<or> ([] = ([] :: string)
                 \<and> list_all (\<lambda>c. c \<noteq> backtick \<and> c \<noteq> dquote \<and> c \<noteq> squote) ''a-''
                 \<and> (''open '' = [] \<or> \<not> isWordChar (last ''open '')))"
      by (simp add: isWordChar_def backtick_def dquote_def squote_def)
    have h8: "?f \<in> set (projectFiles (fileManager ?cb))"
      unfolding fm by (simp add: oddNames_def)
    have h9: "name ?f = ''a-.js'' \<or> relativePath ?f = ''a-.js''" by (simp add: rootFile_def)
    have h10: "[''a-.js''] = getCurrentContext (snd (buildContext oddNamesFs ?cb openDash []))"
      by (simp add: cur)
    have h11: "[] = takeWhile (\<lambda>p. p \<noteq> relativePath ?f) [''a-.js'']"
      by (simp add: rp)
    from quoted_literal_selected [OF q h2 h3 h4 h7 h8 h9 h10 h11]
    have "relativePath ?f \<in> set [''a-.js'']"
      and "\<exists>body tail. buildFileContext oddNamesFs (fileManager ?cb) (relativePath ?f)
                 = ''FILE: '' @ relativePath ?f @ ''\<newline>'' @ body
              \<and> fst (buildContext oddNamesFs ?cb openDash [])
                 = ''=== PROJECT CONTEXT ===\<newline>''
                   @ ''Here are the relevant files from the user's project:\<newline>\<newline>''
                   @ concat (map (buildFileContext oddNamesFs (fileManager ?cb)) [])
                   @ ''FILE: '' @ relativePath ?f @ ''\<newline>'' @ body @ tail"
      using len unfolding fm mx rp by simp_all
    from this(1) inc [OF this(2)] show ?thesis
      unfolding cur rp by simp
  qed
  from first second show ?thesis by simp
qed

text \<open>
  Claim C4, at a message holding the keyword \<open>main\<close> in a project that has
  \<open>main.js\<close>, \<open>main.py\<close>, \<open>index.js\<close> and \<open>app.js\<close>: the cut to three files is made for each
  pattern of the keyword, not for the keyword, and the keyword contributes four files.
\<close>

theorem keyword_main_four_files:
  "keywordPass mainProject (toLowerCase ''main'')
     = [''main.js'', ''main.py'', ''index.js'', ''app.js'']
   \<and> findMentionedFiles mainProject ''main''
     = [''main.js'', ''main.py'', ''index.js'', ''app.js'']"
  by code_simp

text \<open>
  Claim C8, at the relative path \<open>a.js\<close> of a file manager for \<open>/proj\<close> in a process
  running in \<open>/home/u\<close>: the file \<open>/proj/a.js\<close> exists and can be read, yet \<open>readFile\<close>
  returns \<open>null\<close>, because the existence test is made on the path as given, not on the
  path resolved against the project root.
\<close>

theorem readFile_other_cwd:
  "readFileSync homeFs (pathJoin homeFs (projectPath projManager) ''a.js'') = Inr ''hi''
   \<and> existsSync homeFs (pathJoin homeFs (projectPath projManager) ''a.js'')
   \<and> readFile homeFs projManager ''a.js'' = None"
  by (simp add: readFile_def homeFs_def projManager_def posixFs_def posixResolve_def
                posixAbsolute_def)

end
